theory Spec2Isabelle
  imports Main
begin

section \<open>The shared WebSocket composable: data model\<close>

text \<open>
  \<^verbatim>\<open>web-app/app/composables/useAppWebSocket.ts\<close> keeps two module-level variables: the
  nullable \<^verbatim>\<open>socket\<close> and the constant \<^verbatim>\<open>listeners\<close>, an object of four JavaScript
  \<^verbatim>\<open>Set\<close>s of handler functions, one per event kind. A JavaScript function is compared
  by reference, so a handler is modelled by its reference, a natural number. A \<^verbatim>\<open>Set\<close>
  keeps its elements without repetition in insertion order, so it is modelled by the list
  of its elements in that order.
\<close>

datatype kind = Connected | Disconnected | Error | Message

type_synonym fn = nat

record registry =
  connected :: "fn list"
  disconnected :: "fn list"
  error :: "fn list"
  message :: "fn list"

record module_state =
  socket :: "nat option"
  opened :: nat
  listeners :: registry

text \<open>
  The state of the module when it is loaded: \<^verbatim>\<open>socket = null\<close>, four empty sets, and no
  WebSocket constructed yet (\<open>opened\<close> counts the calls of \<^verbatim>\<open>useWebSocket\<close>).
\<close>

definition empty_registry :: registry where
  "empty_registry = \<lparr>connected = [], disconnected = [], error = [], message = []\<rparr>"

definition initial :: module_state where
  "initial = \<lparr>socket = None, opened = 0, listeners = empty_registry\<rparr>"

subsection \<open>The operations of a JavaScript Set\<close>

text \<open>
  \<^verbatim>\<open>Set.prototype.add\<close> appends a value that is not yet an element and leaves the set as it
  is otherwise. \<^verbatim>\<open>Set.prototype.delete\<close> removes the value and returns whether it was an
  element; it never throws. A set holds a value at most once, so removing the value is
  removing every occurrence of it in the list.
\<close>

definition set_add :: "fn \<Rightarrow> fn list \<Rightarrow> fn list" where
  "set_add f xs = (if f \<in> set xs then xs else xs @ [f])"

definition set_delete :: "fn \<Rightarrow> fn list \<Rightarrow> bool \<times> fn list" where
  "set_delete f xs = (f \<in> set xs, removeAll f xs)"

fun handlers_of :: "kind \<Rightarrow> registry \<Rightarrow> fn list" where
  "handlers_of Connected L = connected L"
| "handlers_of Disconnected L = disconnected L"
| "handlers_of Error L = error L"
| "handlers_of Message L = message L"

fun put_handlers :: "kind \<Rightarrow> fn list \<Rightarrow> registry \<Rightarrow> registry" where
  "put_handlers Connected xs L = L\<lparr>connected := xs\<rparr>"
| "put_handlers Disconnected xs L = L\<lparr>disconnected := xs\<rparr>"
| "put_handlers Error xs L = L\<lparr>error := xs\<rparr>"
| "put_handlers Message xs L = L\<lparr>message := xs\<rparr>"

definition reg_add :: "kind \<Rightarrow> fn \<Rightarrow> registry \<Rightarrow> registry" where
  "reg_add k f L = put_handlers k (set_add f (handlers_of k L)) L"

definition reg_delete :: "kind \<Rightarrow> fn \<Rightarrow> registry \<Rightarrow> registry" where
  "reg_delete k f L = put_handlers k (snd (set_delete f (handlers_of k L))) L"

text \<open>The invariant of the four sets: no element is repeated.\<close>

definition wf_registry :: "registry \<Rightarrow> bool" where
  "wf_registry L =
     (distinct (connected L) \<and> distinct (disconnected L) \<and> distinct (error L) \<and>
      distinct (message L))"

subsection \<open>Subscribing and unsubscribing\<close>

text \<open>
  Each of \<^verbatim>\<open>onConnected\<close>, \<^verbatim>\<open>onDisconnected\<close>, \<^verbatim>\<open>onError\<close> and \<^verbatim>\<open>onMessage\<close> adds the
  handler to its set and returns the closure \<^verbatim>\<open>() => listeners.K.delete(fn)\<close>. The closure
  is a state transformer that also returns the boolean of \<^verbatim>\<open>delete\<close>.
\<close>

type_synonym unsubscribe = "module_state \<Rightarrow> bool \<times> module_state"

definition delete_listener :: "kind \<Rightarrow> fn \<Rightarrow> unsubscribe" where
  "delete_listener k f m =
     (fst (set_delete f (handlers_of k (listeners m))),
      m\<lparr>listeners := reg_delete k f (listeners m)\<rparr>)"

definition onConnected :: "fn \<Rightarrow> module_state \<Rightarrow> unsubscribe \<times> module_state" where
  "onConnected f m =
     (delete_listener Connected f, m\<lparr>listeners := reg_add Connected f (listeners m)\<rparr>)"

definition onDisconnected :: "fn \<Rightarrow> module_state \<Rightarrow> unsubscribe \<times> module_state" where
  "onDisconnected f m =
     (delete_listener Disconnected f, m\<lparr>listeners := reg_add Disconnected f (listeners m)\<rparr>)"

definition onError :: "fn \<Rightarrow> module_state \<Rightarrow> unsubscribe \<times> module_state" where
  "onError f m =
     (delete_listener Error f, m\<lparr>listeners := reg_add Error f (listeners m)\<rparr>)"

definition onMessage :: "fn \<Rightarrow> module_state \<Rightarrow> unsubscribe \<times> module_state" where
  "onMessage f m =
     (delete_listener Message f, m\<lparr>listeners := reg_add Message f (listeners m)\<rparr>)"

text \<open>The subscription function of a kind, to state a property of all four at once.\<close>

fun subscribe :: "kind \<Rightarrow> fn \<Rightarrow> module_state \<Rightarrow> unsubscribe \<times> module_state" where
  "subscribe Connected = onConnected"
| "subscribe Disconnected = onDisconnected"
| "subscribe Error = onError"
| "subscribe Message = onMessage"

subsection \<open>The shared socket\<close>

text \<open>
  \<^verbatim>\<open>useAppWebSocket\<close> constructs the socket when \<^verbatim>\<open>socket\<close> is null and returns a fresh
  object \<^verbatim>\<open>{...socket, onConnected, onDisconnected, onError, onMessage}\<close>. The socket is
  modelled by its reference, the number of sockets constructed before it; the four
  members are closures over the module-level \<^verbatim>\<open>listeners\<close>, so they are the four
  functions above.
\<close>

record handle =
  ws :: nat
  on_connected :: "fn \<Rightarrow> module_state \<Rightarrow> unsubscribe \<times> module_state"
  on_disconnected :: "fn \<Rightarrow> module_state \<Rightarrow> unsubscribe \<times> module_state"
  on_error :: "fn \<Rightarrow> module_state \<Rightarrow> unsubscribe \<times> module_state"
  on_message :: "fn \<Rightarrow> module_state \<Rightarrow> unsubscribe \<times> module_state"

definition make_handle :: "nat \<Rightarrow> handle" where
  "make_handle s =
     \<lparr>ws = s, on_connected = onConnected, on_disconnected = onDisconnected,
      on_error = onError, on_message = onMessage\<rparr>"

definition useAppWebSocket :: "module_state \<Rightarrow> handle \<times> module_state" where
  "useAppWebSocket m =
     (case socket m of
        None \<Rightarrow> (make_handle (opened m), m\<lparr>socket := Some (opened m), opened := Suc (opened m)\<rparr>)
      | Some s \<Rightarrow> (make_handle s, m))"

text \<open>What a client of the module can call, and a sequence of such calls.\<close>

datatype call = Use | On kind fn | Off kind fn

fun do_call :: "call \<Rightarrow> module_state \<Rightarrow> module_state" where
  "do_call Use m = snd (useAppWebSocket m)"
| "do_call (On k f) m = snd (subscribe k f m)"
| "do_call (Off k f) m = snd (delete_listener k f m)"

fun do_calls :: "call list \<Rightarrow> module_state \<Rightarrow> module_state" where
  "do_calls [] m = m"
| "do_calls (c # cs) m = do_calls cs (do_call c m)"




text \<open>What happens to the page: a call of a client, or the connection being lost.\<close>

datatype step = Client call | Lost




subsection \<open>Dispatching an event\<close>

text \<open>
  The four callbacks given to \<^verbatim>\<open>useWebSocket\<close> all have the body
  \<^verbatim>\<open>listeners.K.forEach(fn => fn(ws, ev))\<close>, with no \<^verbatim>\<open>try\<close> around the call.
  An event is its kind and the reference of the \<^verbatim>\<open>(ws, ev)\<close> it carries.

  A handler is arbitrary code. What matters here is what it does to this module: the
  calls of the subscription functions and of unsubscribe closures it makes, in order, and
  whether it then returns or throws. Both are a function of the event, of the heap the
  handlers share (the type variable \<open>'a\<close>) and of the registry (which a handler
  observes only through the booleans of \<^verbatim>\<open>delete\<close>); the handler also leaves a new heap.
  A call of a handler ends, by a return or by an exception. The handlers of this part
  fire no event on the socket they are handed; a handler that does re-enters the callback
  inside the walk, which is the subject of the part on re-entrant dispatch below.
\<close>

record event =
  ekind :: kind
  payload :: nat

datatype op = Subscribe kind fn | Unsubscribe kind fn

datatype completion = Returns | Raises

type_synonym 'a handler = "registry \<Rightarrow> 'a \<Rightarrow> event \<Rightarrow> op list \<times> completion \<times> 'a"

type_synonym 'a env = "fn \<Rightarrow> 'a handler"

text \<open>
  \<^verbatim>\<open>Set.prototype.forEach\<close> walks the live set: it visits the elements in insertion
  order, an element deleted before its turn is not visited, and an element added during
  the walk is appended and visited too (so one that is deleted after its visit and added
  again is visited again). The walk is therefore the registry together with the elements
  still to visit, \<open>todo\<close>, and every operation on the set being walked acts on both.
\<close>

fun apply_op :: "kind \<Rightarrow> op \<Rightarrow> registry \<times> fn list \<Rightarrow> registry \<times> fn list" where
  "apply_op k (Subscribe k' f) (L, todo) =
     (reg_add k' f L, if k' = k \<and> f \<notin> set (handlers_of k L) then todo @ [f] else todo)"
| "apply_op k (Unsubscribe k' f) (L, todo) =
     (reg_delete k' f L, if k' = k then removeAll f todo else todo)"

fun apply_ops :: "kind \<Rightarrow> op list \<Rightarrow> registry \<times> fn list \<Rightarrow> registry \<times> fn list" where
  "apply_ops k [] st = st"
| "apply_ops k (x # xs) st = apply_ops k xs (apply_op k x st)"

text \<open>
  An operation of a handler is the call a client could make: a subscription function, or
  the closure one returned.
\<close>

fun op_call :: "op \<Rightarrow> call" where
  "op_call (Subscribe k f) = On k f"
| "op_call (Unsubscribe k f) = Off k f"

datatype finish = Completed | Threw fn

record 'a outcome =
  finished :: finish
  reg_after :: registry
  app_after :: 'a
  invoked :: "(fn \<times> event) list"
  performed :: "op list"

text \<open>
  The walk may go on for ever (a handler that unsubscribes and subscribes itself again is
  appended again), so it takes fuel: one unit per call of a handler, and \<open>None\<close> when the
  fuel runs out. An exception leaves \<^verbatim>\<open>forEach\<close> at once: the handlers still to visit are
  not called, and what the handler did before throwing stays done.
\<close>

fun forEach :: "nat \<Rightarrow> 'a env \<Rightarrow> event \<Rightarrow> registry \<Rightarrow> fn list \<Rightarrow> 'a \<Rightarrow> 'a outcome option" where
  "forEach n env ev L [] a =
     Some \<lparr>finished = Completed, reg_after = L, app_after = a, invoked = [], performed = []\<rparr>"
| "forEach 0 env ev L (f # todo) a = None"
| "forEach (Suc n) env ev L (f # todo) a =
     (case env f L a ev of
        (ops, c, a') \<Rightarrow>
          (case apply_ops (ekind ev) ops (L, todo) of
             (L', todo') \<Rightarrow>
               (case c of
                  Raises \<Rightarrow>
                    Some \<lparr>finished = Threw f, reg_after = L', app_after = a',
                          invoked = [(f, ev)], performed = ops\<rparr>
                | Returns \<Rightarrow>
                    (case forEach n env ev L' todo' a' of
                       None \<Rightarrow> None
                     | Some r \<Rightarrow>
                         Some (r\<lparr>invoked := (f, ev) # invoked r,
                                 performed := ops @ performed r\<rparr>)))))"

text \<open>
  The four callbacks in the options of \<^verbatim>\<open>useWebSocket\<close>, named \<^verbatim>\<open>onConnected\<close>,
  \<^verbatim>\<open>onDisconnected\<close>, \<^verbatim>\<open>onError\<close> and \<^verbatim>\<open>onMessage\<close> there. Each walks its own set and
  passes what the socket gave it to every handler.
\<close>

definition socket_onConnected :: "nat \<Rightarrow> 'a env \<Rightarrow> nat \<Rightarrow> module_state \<Rightarrow> 'a \<Rightarrow> 'a outcome option" where
  "socket_onConnected n env p m a =
     forEach n env \<lparr>ekind = Connected, payload = p\<rparr> (listeners m) (connected (listeners m)) a"

definition socket_onDisconnected :: "nat \<Rightarrow> 'a env \<Rightarrow> nat \<Rightarrow> module_state \<Rightarrow> 'a \<Rightarrow> 'a outcome option" where
  "socket_onDisconnected n env p m a =
     forEach n env \<lparr>ekind = Disconnected, payload = p\<rparr> (listeners m)
       (disconnected (listeners m)) a"

definition socket_onError :: "nat \<Rightarrow> 'a env \<Rightarrow> nat \<Rightarrow> module_state \<Rightarrow> 'a \<Rightarrow> 'a outcome option" where
  "socket_onError n env p m a =
     forEach n env \<lparr>ekind = Error, payload = p\<rparr> (listeners m) (error (listeners m)) a"

definition socket_onMessage :: "nat \<Rightarrow> 'a env \<Rightarrow> nat \<Rightarrow> module_state \<Rightarrow> 'a \<Rightarrow> 'a outcome option" where
  "socket_onMessage n env p m a =
     forEach n env \<lparr>ekind = Message, payload = p\<rparr> (listeners m) (message (listeners m)) a"

text \<open>The socket calls the callback of the event's kind.\<close>

definition dispatch :: "nat \<Rightarrow> 'a env \<Rightarrow> event \<Rightarrow> module_state \<Rightarrow> 'a \<Rightarrow> 'a outcome option" where
  "dispatch n env ev m a =
     (case ekind ev of
        Connected \<Rightarrow> socket_onConnected n env (payload ev) m a
      | Disconnected \<Rightarrow> socket_onDisconnected n env (payload ev) m a
      | Error \<Rightarrow> socket_onError n env (payload ev) m a
      | Message \<Rightarrow> socket_onMessage n env (payload ev) m a)"

text \<open>
  The events the socket delivers from the event loop are dispatched one after the other.
  With handlers that fire no event themselves, each dispatch ends before the next event
  is accepted. An exception that escapes a callback is reported by the event loop and the
  next event is dispatched as usual. Every call of a handler is logged with the position
  of its event in the sequence accepted so far.
\<close>

fun run :: "nat \<Rightarrow> 'a env \<Rightarrow> nat \<Rightarrow> event list \<Rightarrow> module_state \<Rightarrow> 'a \<Rightarrow>
    (module_state \<times> 'a \<times> (nat \<times> fn \<times> event) list) option" where
  "run n env i [] m a = Some (m, a, [])"
| "run n env i (ev # evs) m a =
     (case dispatch n env ev m a of
        None \<Rightarrow> None
      | Some r \<Rightarrow>
          (case run n env (Suc i) evs (m\<lparr>listeners := reg_after r\<rparr>) (app_after r) of
             None \<Rightarrow> None
           | Some (m', a', tr) \<Rightarrow> Some (m', a', map (\<lambda>(f, e). (i, f, e)) (invoked r) @ tr)))"

text \<open>
  The invariant of a walk over the set of kind \<open>k\<close>: the elements still to visit are
  distinct elements of that set.
\<close>

definition pending_ok :: "kind \<Rightarrow> registry \<times> fn list \<Rightarrow> bool" where
  "pending_ok k st = (distinct (snd st) \<and> set (snd st) \<subseteq> set (handlers_of k (fst st)))"

subsection \<open>Re-entrant dispatch\<close>

text \<open>
  Every callback passes the raw \<^verbatim>\<open>WebSocket\<close> to the handlers (\<^verbatim>\<open>fn(ws, ev)\<close>), and a
  \<^verbatim>\<open>WebSocket\<close> is an event target: a handler that calls \<^verbatim>\<open>ws.dispatchEvent\<close> fires an
  event at once, and the callback of its kind runs to its end inside the call of the
  handler, inside the walk in progress. So an action of a handler is an operation on the
  registry or the firing of an event.
\<close>

datatype action = Do op | Fire event

type_synonym 'a rhandler = "registry \<Rightarrow> 'a \<Rightarrow> event \<Rightarrow> action list \<times> completion \<times> 'a"

type_synonym 'a renv = "fn \<Rightarrow> 'a rhandler"

text \<open>
  The state of such a run: the registry, the heap of the handlers, the elements still to
  visit of every walk in progress (the innermost first, each with the kind of its set), the
  number of events the callbacks have accepted, and the log of the calls of handlers, each
  with the number its event was accepted under.
\<close>

record 'a world =
  w_reg :: registry
  w_app :: 'a
  w_walks :: "(kind \<times> fn list) list"
  w_accepted :: nat
  w_log :: "(nat \<times> fn \<times> event) list"

text \<open>
  An operation on a set acts on the registry and on every walk in progress over that set.
\<close>

fun reg_op :: "op \<Rightarrow> registry \<Rightarrow> registry" where
  "reg_op (Subscribe k f) L = reg_add k f L"
| "reg_op (Unsubscribe k f) L = reg_delete k f L"

definition do_op :: "op \<Rightarrow> 'a world \<Rightarrow> 'a world" where
  "do_op x w =
     w\<lparr>w_reg := reg_op x (w_reg w),
       w_walks := map (\<lambda>(k, todo). (k, snd (apply_op k x (w_reg w, todo)))) (w_walks w)\<rparr>"

text \<open>
  \<open>accept\<close> is a callback being called with an event: the event gets the next number and
  the walk over the set of its kind starts. \<open>walk\<close> is \<^verbatim>\<open>forEach\<close>: it calls the next
  handler, which leaves its heap and then performs its actions; an exception ends the
  walk. \<open>perform\<close> runs the actions of a handler in order; an event fired is accepted and
  dispatched to its end before the next action, and an exception of one of its handlers is
  reported by \<^verbatim>\<open>dispatchEvent\<close>, not thrown to the handler that fired. Every call takes one
  unit of fuel, and the result is \<open>None\<close> when the fuel runs out.
\<close>

fun walk :: "nat \<Rightarrow> 'a renv \<Rightarrow> nat \<Rightarrow> event \<Rightarrow> 'a world \<Rightarrow> 'a world option"
  and perform :: "nat \<Rightarrow> 'a renv \<Rightarrow> action list \<Rightarrow> 'a world \<Rightarrow> 'a world option"
  and accept :: "nat \<Rightarrow> 'a renv \<Rightarrow> event \<Rightarrow> 'a world \<Rightarrow> 'a world option" where
  "walk 0 env i ev w = None"
| "walk (Suc n) env i ev w =
     (case w_walks w of
        [] \<Rightarrow> Some w
      | (k, []) # outer \<Rightarrow> Some (w\<lparr>w_walks := outer\<rparr>)
      | (k, f # rest) # outer \<Rightarrow>
          (case env f (w_reg w) (w_app w) ev of
             (acts, c, a') \<Rightarrow>
               (case perform n env acts
                       (w\<lparr>w_walks := (k, rest) # outer, w_app := a',
                          w_log := w_log w @ [(i, f, ev)]\<rparr>) of
                  None \<Rightarrow> None
                | Some w1 \<Rightarrow>
                    (case c of
                       Raises \<Rightarrow> Some (w1\<lparr>w_walks := tl (w_walks w1)\<rparr>)
                     | Returns \<Rightarrow> walk n env i ev w1))))"
| "perform 0 env acts w = None"
| "perform (Suc n) env [] w = Some w"
| "perform (Suc n) env (Do x # acts) w = perform n env acts (do_op x w)"
| "perform (Suc n) env (Fire ev # acts) w =
     (case accept n env ev w of
        None \<Rightarrow> None
      | Some w' \<Rightarrow> perform n env acts w')"
| "accept 0 env ev w = None"
| "accept (Suc n) env ev w =
     walk n env (w_accepted w) ev
       (w\<lparr>w_accepted := Suc (w_accepted w),
          w_walks := (ekind ev, handlers_of (ekind ev) (w_reg w)) # w_walks w\<rparr>)"

text \<open>The events the socket delivers from the event loop, one after the other.\<close>

fun deliver :: "nat \<Rightarrow> 'a renv \<Rightarrow> event list \<Rightarrow> 'a world \<Rightarrow> 'a world option" where
  "deliver n env [] w = Some w"
| "deliver n env (ev # evs) w =
     (case accept n env ev w of
        None \<Rightarrow> None
      | Some w' \<Rightarrow> deliver n env evs w')"

text \<open>A run starts with no walk in progress, no event accepted and an empty log.\<close>

definition start_world :: "module_state \<Rightarrow> 'a \<Rightarrow> 'a world" where
  "start_world m a =
     \<lparr>w_reg = listeners m, w_app = a, w_walks = [], w_accepted = 0, w_log = []\<rparr>"

text \<open>
  The events accepted so far and a log in their order: the log is sorted by the number of
  the event, and every call carries the event accepted under its number.
\<close>

definition ordered_log :: "event list \<Rightarrow> 'a world \<Rightarrow> bool" where
  "ordered_log seen w =
     (w_accepted w = length seen \<and> sorted (map fst (w_log w)) \<and>
      (\<forall>x\<in>set (w_log w). fst x < length seen \<and> snd (snd x) = seen ! fst x))"

text \<open>The log has grown by calls for one event only.\<close>

definition same_event_calls :: "nat \<Rightarrow> event \<Rightarrow> 'a world \<Rightarrow> 'a world \<Rightarrow> bool" where
  "same_event_calls i ev w w' =
     (\<exists>calls. w_log w' = w_log w @ calls \<and> (\<forall>x\<in>set calls. fst x = i \<and> snd (snd x) = ev))"

subsection \<open>The header component\<close>

text \<open>
  The component of \<^verbatim>\<open>part_000\<close> subscribes one closure to \<^verbatim>\<open>connected\<close> and one to
  \<^verbatim>\<open>disconnected\<close> in its setup, keeps the two unsubscribe closures, and calls both in
  \<^verbatim>\<open>onUnmounted\<close>. The closures are created by the setup, so they are parameters here.
\<close>

record component =
  unlistenOnConnected :: unsubscribe
  unlistenOnDisconnected :: unsubscribe

definition header_setup :: "fn \<Rightarrow> fn \<Rightarrow> module_state \<Rightarrow> component \<times> module_state" where
  "header_setup h1 h2 m =
     (case useAppWebSocket m of
        (w, m0) \<Rightarrow>
          (case on_connected w h1 m0 of
             (u1, m1) \<Rightarrow>
               (case on_disconnected w h2 m1 of
                  (u2, m2) \<Rightarrow>
                    (\<lparr>unlistenOnConnected = u1, unlistenOnDisconnected = u2\<rparr>, m2))))"

definition onUnmounted :: "component \<Rightarrow> module_state \<Rightarrow> module_state" where
  "onUnmounted c m = snd (unlistenOnDisconnected c (snd (unlistenOnConnected c m)))"

text \<open>
  The two closures of the component set \<^verbatim>\<open>isConnected\<close>, the heap of this environment,
  and touch nothing else; every other handler of it does nothing.
\<close>

definition header_env :: "fn \<Rightarrow> fn \<Rightarrow> bool env" where
  "header_env h1 h2 f L a ev =
     (if f = h1 then ([], Returns, True) else if f = h2 then ([], Returns, False)
      else ([], Returns, a))"

subsection \<open>Handlers used as concrete inputs\<close>

text \<open>
  Handler 1 throws on the event with payload 7 and returns on every other event; all
  other handlers return. None of them subscribes or unsubscribes.
\<close>

definition faulty_env :: "unit env" where
  "faulty_env f L a ev =
     (if f = 1 \<and> payload ev = 7 then ([], Raises, a) else ([], Returns, a))"

text \<open>
  Handler 1, the first time it runs, calls its unsubscribe closure for \<^verbatim>\<open>message\<close> and
  subscribes itself again; the heap records that it has run.
\<close>

definition resubscribing_env :: "bool env" where
  "resubscribing_env f L a ev =
     (if f = 1 \<and> \<not> a then ([Unsubscribe Message 1, Subscribe Message 1], Returns, True)
      else ([], Returns, a))"

text \<open>Handler 1 unsubscribes itself from \<^verbatim>\<open>message\<close> whenever it runs.\<close>

definition once_env :: "unit env" where
  "once_env f L a ev =
     (if f = 1 then ([Unsubscribe Message 1], Returns, a) else ([], Returns, a))"

text \<open>
  Every handler of this environment unsubscribes itself from \<^verbatim>\<open>message\<close> and subscribes
  itself again, each time it runs.
\<close>

definition looping_env :: "unit env" where
  "looping_env f L a ev = ([Unsubscribe Message f, Subscribe Message f], Returns, a)"

text \<open>
  Handler 1 fires the \<^verbatim>\<open>message\<close> event with payload 8 on the socket when it is called with
  the event with payload 7; all other calls do nothing.
\<close>

definition firing_env :: "unit renv" where
  "firing_env f L a ev =
     (if f = 1 \<and> payload ev = 7 then ([Fire \<lparr>ekind = Message, payload = 8\<rparr>], Returns, a)
      else ([], Returns, a))"

text \<open>Handlers that fire nothing, as handlers of a re-entrant run.\<close>

definition lift_env :: "'a env \<Rightarrow> 'a renv" where
  "lift_env env f L a ev = (case env f L a ev of (ops, c, a') \<Rightarrow> (map Do ops, c, a'))"


section \<open>The Module Manager\<close>

text \<open>
  Modelled from the spec: the Module Manager (\<^verbatim>\<open>src/core/module_manager.py\<close> of the
  repository) is not among the source files, so its registry and \<^verbatim>\<open>startAll\<close> follow
  sections 3, 4.2 and 4.3 of the specification. A descriptor has a unique name, the names
  it depends on and a lifecycle state. The \<^verbatim>\<open>start\<close> of a module either succeeds or fails
  with \<^verbatim>\<open>StartError\<close>; which modules succeed is the parameter \<open>ok\<close>. \<^verbatim>\<open>stop\<close> returns ok.
  The calls of \<^verbatim>\<open>start\<close> and \<^verbatim>\<open>stop\<close> are logged in the order they are made. The states
  \<open>Starting\<close> and \<open>Stopping\<close> hold only while a call is in progress, so the model, which
  runs each call to its end, never leaves a module in them.
\<close>

datatype lifecycle = Registered | Starting | Running | Stopping | Stopped | Failed

record descriptor =
  mod_name :: string
  mod_deps :: "string list"
  mod_state :: lifecycle

datatype manager_error =
    DuplicateModule string
  | UnknownDependency string string
  | DependencyCycle "string list"
  | StartError string

datatype lifecycle_call = Start string | Stop string

text \<open>Modelled from the spec: \<^verbatim>\<open>register\<close> fails with \<^verbatim>\<open>DuplicateModule\<close> on a known name.\<close>

definition register :: "descriptor \<Rightarrow> descriptor list \<Rightarrow> manager_error + descriptor list" where
  "register d ms =
     (if mod_name d \<in> set (map mod_name ms) then Inl (DuplicateModule (mod_name d))
      else Inr (ms @ [d]))"

text \<open>Modelled from the spec: a lifecycle transition of the module with a given name.\<close>

definition set_state :: "string \<Rightarrow> lifecycle \<Rightarrow> descriptor list \<Rightarrow> descriptor list" where
  "set_state x st ms = map (\<lambda>d. if mod_name d = x then d\<lparr>mod_state := st\<rparr> else d) ms"

text \<open>
  Modelled from the spec: a dependency on a name never registered is reported with the
  module that declares it.
\<close>

fun unknown_dependency :: "string list \<Rightarrow> descriptor list \<Rightarrow> (string \<times> string) option" where
  "unknown_dependency known [] = None"
| "unknown_dependency known (d # ds) =
     (case find (\<lambda>x. x \<notin> set known) (mod_deps d) of
        Some x \<Rightarrow> Some (mod_name d, x)
      | None \<Rightarrow> unknown_dependency known ds)"

text \<open>
  Modelled from the spec: the start order is a topological order of the dependency graph.
  The next module is the first one, in registration order, whose dependencies are all in
  the order already; when modules remain and none qualifies, no valid order exists and
  the modules left are named in \<^verbatim>\<open>DependencyCycle\<close>. The counter bounds the number of
  picks by the number of modules.
\<close>

fun start_order :: "nat \<Rightarrow> descriptor list \<Rightarrow> string list \<Rightarrow> manager_error + string list" where
  "start_order n [] acc = Inr acc"
| "start_order 0 (d # ds) acc = Inl (DependencyCycle (map mod_name (d # ds)))"
| "start_order (Suc n) (d # ds) acc =
     (case find (\<lambda>x. list_all (\<lambda>y. y \<in> set acc) (mod_deps x)) (d # ds) of
        None \<Rightarrow> Inl (DependencyCycle (map mod_name (d # ds)))
      | Some x \<Rightarrow> start_order n (remove1 x (d # ds)) (acc @ [mod_name x]))"

text \<open>
  Modelled from the spec: the modules are started in order. \<open>started\<close> holds the modules
  started by this call, the latest first. When a \<^verbatim>\<open>start\<close> fails the module is \<open>Failed\<close>
  and the modules in \<open>started\<close> are stopped, latest first, before the failure is reported.
\<close>

text \<open>Modelled from the spec: \<^verbatim>\<open>stop\<close> takes each of the given modules to \<open>Stopped\<close>, in order.\<close>

fun stop_modules :: "string list \<Rightarrow> descriptor list \<Rightarrow> descriptor list" where
  "stop_modules [] ms = ms"
| "stop_modules (x # xs) ms = stop_modules xs (set_state x Stopped ms)"

fun start_modules :: "(string \<Rightarrow> bool) \<Rightarrow> string list \<Rightarrow> string list \<Rightarrow> descriptor list \<Rightarrow>
    (manager_error + unit) \<times> descriptor list \<times> lifecycle_call list" where
  "start_modules ok [] started ms = (Inr (), ms, [])"
| "start_modules ok (x # xs) started ms =
     (if ok x then
        (case start_modules ok xs (x # started) (set_state x Running ms) of
           (res, ms', calls) \<Rightarrow> (res, ms', Start x # calls))
      else
        (Inl (StartError x), stop_modules started (set_state x Failed ms),
         Start x # map Stop started))"

text \<open>
  Modelled from the spec: \<^verbatim>\<open>startAll\<close> fails with \<^verbatim>\<open>UnknownDependency\<close> or
  \<^verbatim>\<open>DependencyCycle\<close> before any module is started, and otherwise starts the modules in
  the start order.
\<close>

definition startAll :: "(string \<Rightarrow> bool) \<Rightarrow> descriptor list \<Rightarrow>
    (manager_error + unit) \<times> descriptor list \<times> lifecycle_call list" where
  "startAll ok ms =
     (case unknown_dependency (map mod_name ms) ms of
        Some (m, x) \<Rightarrow> (Inl (UnknownDependency m x), ms, [])
      | None \<Rightarrow>
          (case start_order (length ms) ms [] of
             Inl e \<Rightarrow> (Inl e, ms, [])
           | Inr order \<Rightarrow> start_modules ok order [] ms))"

text \<open>
  A registry like the one of the specification's scenario: \<^verbatim>\<open>memory\<close> without
  dependencies, \<^verbatim>\<open>brain\<close> depending on it, and \<^verbatim>\<open>tools\<close> depending on \<^verbatim>\<open>brain\<close>, registered
  in another order; every \<^verbatim>\<open>start\<close> succeeds but the one of \<^verbatim>\<open>tools\<close>.
\<close>

definition three_modules :: "descriptor list" where
  "three_modules =
     [\<lparr>mod_name = ''tools'', mod_deps = [''brain''], mod_state = Registered\<rparr>,
      \<lparr>mod_name = ''memory'', mod_deps = [], mod_state = Registered\<rparr>,
      \<lparr>mod_name = ''brain'', mod_deps = [''memory''], mod_state = Registered\<rparr>]"

definition tools_fails :: "string \<Rightarrow> bool" where
  "tools_fails x = (x \<noteq> ''tools'')"

section \<open>Properties of the registry\<close>

lemma handlers_of_put_same [simp]: "handlers_of k (put_handlers k xs L) = xs"
  by (cases k) simp_all

lemma handlers_of_put_other [simp]:
  "k' \<noteq> k \<Longrightarrow> handlers_of k' (put_handlers k xs L) = handlers_of k' L"
  by (cases k; cases k') simp_all

lemma put_handlers_twice [simp]: "put_handlers k xs (put_handlers k ys L) = put_handlers k xs L"
  by (cases k) simp_all

lemma put_handlers_same [simp]: "put_handlers k (handlers_of k L) L = L"
  by (cases k) simp_all

lemma subscribe_eq:
  "subscribe k f m = (delete_listener k f, m\<lparr>listeners := reg_add k f (listeners m)\<rparr>)"
  by (cases k) (simp_all add: onConnected_def onDisconnected_def onError_def onMessage_def)

lemma dispatch_eq:
  "dispatch n env ev m a =
     forEach n env ev (listeners m) (handlers_of (ekind ev) (listeners m)) a"
proof (cases ev)
  case (fields k p)
  then show ?thesis
    by (cases k)
       (simp_all add: dispatch_def socket_onConnected_def socket_onDisconnected_def
          socket_onError_def socket_onMessage_def)
qed

subsection \<open>Operations during a dispatch\<close>

lemma handlers_of_reg_add:
  "handlers_of k' (reg_add k f L) = (if k' = k then set_add f (handlers_of k L) else handlers_of k' L)"
  by (simp add: reg_add_def)

lemma handlers_of_reg_delete:
  "handlers_of k' (reg_delete k f L) = (if k' = k then removeAll f (handlers_of k L) else handlers_of k' L)"
  by (simp add: reg_delete_def set_delete_def)

lemma pending_ok_apply_op: "pending_ok k st \<Longrightarrow> pending_ok k (apply_op k x st)"
  by (cases x; cases st)
     (auto simp: pending_ok_def handlers_of_reg_add handlers_of_reg_delete set_add_def
        distinct_removeAll)

lemma pending_ok_apply_ops: "pending_ok k st \<Longrightarrow> pending_ok k (apply_ops k xs st)"
  by (induction xs arbitrary: st) (simp_all add: pending_ok_apply_op)

lemma not_pending_apply_op:
  "h \<notin> set (snd st) \<Longrightarrow> Subscribe k h \<noteq> x \<Longrightarrow> h \<notin> set (snd (apply_op k x st))"
  by (cases x; cases st) auto

lemma not_pending_apply_ops:
  "h \<notin> set (snd st) \<Longrightarrow> Subscribe k h \<notin> set xs \<Longrightarrow> h \<notin> set (snd (apply_ops k xs st))"
  by (induction xs arbitrary: st) (simp_all add: not_pending_apply_op)

lemma still_pending_apply_op:
  "h \<in> set (snd st) \<Longrightarrow> Unsubscribe k h \<noteq> x \<Longrightarrow> h \<in> set (snd (apply_op k x st))"
  by (cases x; cases st) auto

lemma still_pending_apply_ops:
  "h \<in> set (snd st) \<Longrightarrow> Unsubscribe k h \<notin> set xs \<Longrightarrow> h \<in> set (snd (apply_ops k xs st))"
  by (induction xs arbitrary: st) (simp_all add: still_pending_apply_op)

lemma forEach_Some_cases:
  assumes "forEach n env ev L (f # todo) a = Some r"
  obtains n' ops c a' L' todo' where "n = Suc n'" "env f L a ev = (ops, c, a')"
    "apply_ops (ekind ev) ops (L, todo) = (L', todo')"
    "(c = Raises \<and> r = \<lparr>finished = Threw f, reg_after = L', app_after = a',
                          invoked = [(f, ev)], performed = ops\<rparr>) \<or>
     (c = Returns \<and> (\<exists>r'. forEach n' env ev L' todo' a' = Some r' \<and>
         r = r'\<lparr>invoked := (f, ev) # invoked r', performed := ops @ performed r'\<rparr>))"
proof (cases n)
  case 0
  with assms show ?thesis by simp
next
  case (Suc n')
  obtain ops c a' where e: "env f L a ev = (ops, c, a')" by (cases "env f L a ev") auto
  obtain L' todo' where ap: "apply_ops (ekind ev) ops (L, todo) = (L', todo')"
    by (cases "apply_ops (ekind ev) ops (L, todo)") auto
  from assms Suc e ap show ?thesis
    by (intro that[of n' ops c a' L' todo']) (auto split: completion.splits option.splits)
qed

lemma invoked_at_most_once:
  assumes "forEach n env ev L todo a = Some r" "pending_ok (ekind ev) (L, todo)"
    "Subscribe (ekind ev) h \<notin> set (performed r)"
  shows "count_list (invoked r) (h, ev) \<le> (if h \<in> set todo then 1 else 0)"
  using assms
proof (induction n arbitrary: L todo a r)
  case 0
  then show ?case by (cases todo) auto
next
  case (Suc n)
  show ?case
  proof (cases todo)
    case Nil
    with Suc.prems show ?thesis by auto
  next
    case (Cons f rest)
    with Suc.prems(1) have fe: "forEach (Suc n) env ev L (f # rest) a = Some r" by simp
    from fe show ?thesis
    proof (cases rule: forEach_Some_cases)
      case (1 n' ops c a' L' todo')
      have ok_rest: "pending_ok (ekind ev) (L, rest)"
        using Suc.prems(2) Cons by (auto simp: pending_ok_def)
      have ok': "pending_ok (ekind ev) (L', todo')"
        using pending_ok_apply_ops[OF ok_rest, of ops] 1(3) by simp
      from 1(4) show ?thesis
      proof
        assume "c = Raises \<and> r = \<lparr>finished = Threw f, reg_after = L', app_after = a',
                          invoked = [(f, ev)], performed = ops\<rparr>"
        then show ?thesis using Cons by auto
      next
        assume "c = Returns \<and> (\<exists>r'. forEach n' env ev L' todo' a' = Some r' \<and>
         r = r'\<lparr>invoked := (f, ev) # invoked r', performed := ops @ performed r'\<rparr>)"
        then obtain r' where r': "forEach n' env ev L' todo' a' = Some r'"
          and r: "r = r'\<lparr>invoked := (f, ev) # invoked r', performed := ops @ performed r'\<rparr>"
          by blast
        from r Suc.prems(3) have nosub: "Subscribe (ekind ev) h \<notin> set ops"
          "Subscribe (ekind ev) h \<notin> set (performed r')" by auto
        from 1(1) have "n' = n" by simp
        with Suc.IH[OF _ ok' nosub(2)] r'
        have ih: "count_list (invoked r') (h, ev) \<le> (if h \<in> set todo' then 1 else 0)" by simp
        have np: "h \<notin> set rest \<Longrightarrow> h \<notin> set todo'"
          using not_pending_apply_ops[of h "(L, rest)" "ekind ev" ops] nosub(1) 1(3) by simp
        show ?thesis
        proof (cases "f = h")
          case True
          with Suc.prems(2) Cons have "h \<notin> set rest" by (auto simp: pending_ok_def)
          with np ih have "count_list (invoked r') (h, ev) = 0" by simp
          with r True Cons show ?thesis by simp
        next
          case False
          with ih np r Cons show ?thesis by (auto split: if_splits)
        qed
      qed
    qed
  qed
qed

lemma invoked_not_skipped:
  assumes "forEach n env ev L todo a = Some r" "finished r = Completed"
    "h \<in> set todo" "Unsubscribe (ekind ev) h \<notin> set (performed r)"
  shows "(h, ev) \<in> set (invoked r)"
  using assms
proof (induction n arbitrary: L todo a r)
  case 0
  then show ?case by (cases todo) auto
next
  case (Suc n)
  from Suc.prems(3) obtain f rest where Cons: "todo = f # rest" by (cases todo) auto
  with Suc.prems(1) have fe: "forEach (Suc n) env ev L (f # rest) a = Some r" by simp
  from fe show ?case
  proof (cases rule: forEach_Some_cases)
    case (1 n' ops c a' L' todo')
    from 1(4) Suc.prems(2) obtain r' where c: "c = Returns"
      and r': "forEach n' env ev L' todo' a' = Some r'"
      and r: "r = r'\<lparr>invoked := (f, ev) # invoked r', performed := ops @ performed r'\<rparr>"
      by auto
    show ?thesis
    proof (cases "f = h")
      case True
      with r show ?thesis by simp
    next
      case False
      with Suc.prems(3) Cons have "h \<in> set rest" by simp
      moreover from r Suc.prems(4) have nounsub: "Unsubscribe (ekind ev) h \<notin> set ops"
        "Unsubscribe (ekind ev) h \<notin> set (performed r')" by auto
      ultimately have "h \<in> set todo'"
        using still_pending_apply_ops[of h "(L, rest)" "ekind ev" ops] 1(3) by simp
      moreover from r Suc.prems(2) have "finished r' = Completed" by simp
      moreover from 1(1) have "n' = n" by simp
      ultimately have "(h, ev) \<in> set (invoked r')"
        using Suc.IH[OF _ _ _ nounsub(2)] r' by simp
      with r show ?thesis by simp
    qed
  qed
qed



lemma count_list_distinct: "distinct xs \<Longrightarrow> x \<in> set xs \<Longrightarrow> count_list xs x = 1"
  by (induction xs) auto



subsection \<open>Handlers that are never subscribed, and the log of a run\<close>

lemma not_registered_apply_op:
  "h \<notin> set (handlers_of k' (fst st)) \<Longrightarrow> Subscribe k' h \<noteq> x \<Longrightarrow>
   h \<notin> set (handlers_of k' (fst (apply_op k x st)))"
  by (cases x; cases st) (auto simp: handlers_of_reg_add handlers_of_reg_delete set_add_def)

lemma not_registered_apply_ops:
  "h \<notin> set (handlers_of k' (fst st)) \<Longrightarrow> Subscribe k' h \<notin> set xs \<Longrightarrow>
   h \<notin> set (handlers_of k' (fst (apply_ops k xs st)))"
  by (induction xs arbitrary: st) (simp_all add: not_registered_apply_op)

lemma forEach_not_subscribed:
  assumes "forEach n env ev L todo a = Some r"
    and "\<forall>g L a e. Subscribe k h \<notin> set (fst (env g L a e))"
    and "h \<notin> set (handlers_of k L)"
    and "ekind ev = k \<longrightarrow> h \<notin> set todo"
  shows "h \<notin> set (handlers_of k (reg_after r)) \<and> (ekind ev = k \<longrightarrow> (h, ev) \<notin> set (invoked r))"
  using assms(1,3,4)
proof (induction n arbitrary: L todo a r)
  case 0
  then show ?case by (cases todo) auto
next
  case (Suc n)
  show ?case
  proof (cases todo)
    case Nil
    with Suc.prems show ?thesis by auto
  next
    case (Cons f rest)
    with Suc.prems(1) have fe: "forEach (Suc n) env ev L (f # rest) a = Some r" by simp
    from fe show ?thesis
    proof (cases rule: forEach_Some_cases)
      case (1 n' ops c a' L' todo')
      from assms(2) have "Subscribe k h \<notin> set (fst (env f L a ev))" by blast
      with 1(2) have nosub: "Subscribe k h \<notin> set ops" by simp
      have reg': "h \<notin> set (handlers_of k L')"
        using not_registered_apply_ops[of h k "(L, rest)" ops "ekind ev"] Suc.prems(2) nosub 1(3)
        by simp
      have todo': "ekind ev = k \<longrightarrow> h \<notin> set todo'"
        using not_pending_apply_ops[of h "(L, rest)" k ops] Suc.prems(3) Cons nosub 1(3)
        by auto
      have fh: "ekind ev = k \<longrightarrow> f \<noteq> h" using Suc.prems(3) Cons by auto
      from 1(4) show ?thesis
      proof
        assume "c = Raises \<and> r = \<lparr>finished = Threw f, reg_after = L', app_after = a',
                          invoked = [(f, ev)], performed = ops\<rparr>"
        with reg' fh show ?thesis by auto
      next
        assume "c = Returns \<and> (\<exists>r'. forEach n' env ev L' todo' a' = Some r' \<and>
         r = r'\<lparr>invoked := (f, ev) # invoked r', performed := ops @ performed r'\<rparr>)"
        then obtain r' where r': "forEach n' env ev L' todo' a' = Some r'"
          and r: "r = r'\<lparr>invoked := (f, ev) # invoked r', performed := ops @ performed r'\<rparr>"
          by blast
        from 1(1) r' have "forEach n env ev L' todo' a' = Some r'" by simp
        from Suc.IH[OF this reg' todo'] r fh show ?thesis by auto
      qed
    qed
  qed
qed

lemma forEach_invoked_event:
  "forEach n env ev L todo a = Some r \<Longrightarrow> \<forall>x\<in>set (invoked r). snd x = ev"
proof (induction n arbitrary: L todo a r)
  case 0
  then show ?case by (cases todo) auto
next
  case (Suc n)
  show ?case
  proof (cases todo)
    case Nil
    with Suc.prems show ?thesis by auto
  next
    case (Cons f rest)
    with Suc.prems have "forEach (Suc n) env ev L (f # rest) a = Some r" by simp
    then show ?thesis
    proof (cases rule: forEach_Some_cases)
      case (1 n' ops c a' L' todo')
      from 1(4) show ?thesis
      proof
        assume "c = Raises \<and> r = \<lparr>finished = Threw f, reg_after = L', app_after = a',
                          invoked = [(f, ev)], performed = ops\<rparr>"
        then show ?thesis by auto
      next
        assume "c = Returns \<and> (\<exists>r'. forEach n' env ev L' todo' a' = Some r' \<and>
         r = r'\<lparr>invoked := (f, ev) # invoked r', performed := ops @ performed r'\<rparr>)"
        then obtain r' where r': "forEach n' env ev L' todo' a' = Some r'"
          and r: "r = r'\<lparr>invoked := (f, ev) # invoked r', performed := ops @ performed r'\<rparr>"
          by blast
        from 1(1) r' have "forEach n env ev L' todo' a' = Some r'" by simp
        from Suc.IH[OF this] r show ?thesis by auto
      qed
    qed
  qed
qed

lemma dispatch_not_subscribed:
  assumes "dispatch n env ev m a = Some r"
    and "\<forall>g L a e. Subscribe k h \<notin> set (fst (env g L a e))"
    and "h \<notin> set (handlers_of k (listeners m))"
  shows "h \<notin> set (handlers_of k (reg_after r)) \<and> (ekind ev = k \<longrightarrow> (h, ev) \<notin> set (invoked r))"
  using forEach_not_subscribed[of n env ev "listeners m" "handlers_of (ekind ev) (listeners m)" a r k h]
    assms by (auto simp: dispatch_eq)

lemma run_not_subscribed:
  assumes "run n env i evs m a = Some (m', a', tr)"
    and "\<forall>g L a e. Subscribe k h \<notin> set (fst (env g L a e))"
    and "h \<notin> set (handlers_of k (listeners m))"
  shows "h \<notin> set (handlers_of k (listeners m')) \<and>
     (\<forall>x\<in>set tr. fst (snd x) = h \<longrightarrow> ekind (snd (snd x)) \<noteq> k)"
  using assms(1,3)
proof (induction evs arbitrary: i m a tr)
  case Nil
  then show ?case by simp
next
  case (Cons ev evs)
  from Cons.prems(1) obtain r tr' where
    d: "dispatch n env ev m a = Some r"
    and rest: "run n env (Suc i) evs (m\<lparr>listeners := reg_after r\<rparr>) (app_after r) = Some (m', a', tr')"
    and tr: "tr = map (\<lambda>(f, e). (i, f, e)) (invoked r) @ tr'"
    by (auto split: option.splits)
  from dispatch_not_subscribed[OF d assms(2) Cons.prems(2)]
  have reg: "h \<notin> set (handlers_of k (reg_after r))"
    and inv: "ekind ev = k \<longrightarrow> (h, ev) \<notin> set (invoked r)" by simp_all
  have only_ev: "\<forall>x\<in>set (invoked r). snd x = ev"
    by (rule forEach_invoked_event[OF d[unfolded dispatch_eq]])
  from reg have "h \<notin> set (handlers_of k (listeners (m\<lparr>listeners := reg_after r\<rparr>)))" by simp
  from Cons.IH[OF rest this] inv tr only_ev show ?case by (auto simp: case_prod_beta)
qed

lemma sorted_map_const: "sorted (map (\<lambda>x. (c::nat)) xs)"
  by (induction xs) auto

lemma run_indices:
  assumes "run n env i evs m a = Some (m', a', tr)"
  shows "sorted (map fst tr) \<and>
     (\<forall>x\<in>set tr. i \<le> fst x \<and> fst x < i + length evs \<and> snd (snd x) = evs ! (fst x - i))"
  using assms
proof (induction evs arbitrary: i m a tr)
  case Nil
  then show ?case by simp
next
  case (Cons ev evs)
  from Cons.prems(1) obtain r tr' where
    d: "dispatch n env ev m a = Some r"
    and rest: "run n env (Suc i) evs (m\<lparr>listeners := reg_after r\<rparr>) (app_after r) = Some (m', a', tr')"
    and tr: "tr = map (\<lambda>(f, e). (i, f, e)) (invoked r) @ tr'"
    by (auto split: option.splits)
  have only_ev: "\<forall>x\<in>set (invoked r). snd x = ev"
    by (rule forEach_invoked_event[OF d[unfolded dispatch_eq]])
  from Cons.IH[OF rest] have ih: "sorted (map fst tr')"
    "\<forall>x\<in>set tr'. Suc i \<le> fst x \<and> fst x < Suc i + length evs \<and> snd (snd x) = evs ! (fst x - Suc i)"
    by simp_all
  have "sorted (map fst tr)"
    using ih tr by (auto simp: sorted_append case_prod_beta comp_def sorted_map_const)
  moreover have "\<forall>x\<in>set tr. i \<le> fst x \<and> fst x < i + length (ev # evs) \<and>
      snd (snd x) = (ev # evs) ! (fst x - i)"
  proof
    fix x assume "x \<in> set tr"
    with tr consider "x \<in> set (map (\<lambda>(f, e). (i, f, e)) (invoked r))" | "x \<in> set tr'" by auto
    then show "i \<le> fst x \<and> fst x < i + length (ev # evs) \<and> snd (snd x) = (ev # evs) ! (fst x - i)"
    proof cases
      case 1
      with only_ev show ?thesis by (auto simp: case_prod_beta)
    next
      case 2
      with ih(2) have b: "Suc i \<le> fst x" "fst x < Suc i + length evs"
        "snd (snd x) = evs ! (fst x - Suc i)" by auto
      from b(1) have "fst x - i = Suc (fst x - Suc i)" by simp
      with b show ?thesis by simp
    qed
  qed
  ultimately show ?case by simp
qed

lemma listeners_useAppWebSocket: "listeners (snd (useAppWebSocket m)) = listeners m"
  by (simp add: useAppWebSocket_def split: option.splits)

lemma header_setup_eq:
  "header_setup h1 h2 m =
     (\<lparr>unlistenOnConnected = delete_listener Connected h1,
       unlistenOnDisconnected = delete_listener Disconnected h2\<rparr>,
      (snd (useAppWebSocket m))\<lparr>listeners :=
         reg_add Disconnected h2 (reg_add Connected h1 (listeners m))\<rparr>)"
  by (simp add: header_setup_def useAppWebSocket_def make_handle_def onConnected_def
      onDisconnected_def split: option.splits)

lemma listeners_onUnmounted:
  "listeners (onUnmounted \<lparr>unlistenOnConnected = delete_listener Connected h1,
       unlistenOnDisconnected = delete_listener Disconnected h2\<rparr> m) =
     reg_delete Disconnected h2 (reg_delete Connected h1 (listeners m))"
  by (simp add: onUnmounted_def delete_listener_def)

subsection \<open>The socket under client calls\<close>



lemma distinct_set_add: "distinct xs \<Longrightarrow> distinct (set_add f xs)"
  by (simp add: set_add_def)

text \<open>
  What a dispatch does to the module state is what the calls made by the handlers do, so
  the states reached through dispatches are states reached by client calls.
\<close>

lemma do_call_op:
  "do_call (op_call x) m = m\<lparr>listeners := fst (apply_op k x (listeners m, t))\<rparr>"
  by (cases x) (simp_all add: subscribe_eq delete_listener_def)

lemma do_calls_ops:
  "do_calls (map op_call xs) m = m\<lparr>listeners := fst (apply_ops k xs (listeners m, t))\<rparr>"
proof (induction xs arbitrary: m t)
  case Nil
  show ?case by simp
next
  case (Cons x xs)
  obtain L' t' where ap: "apply_op k x (listeners m, t) = (L', t')"
    by (cases "apply_op k x (listeners m, t)") auto
  have "do_calls (map op_call (x # xs)) m = do_calls (map op_call xs) (m\<lparr>listeners := L'\<rparr>)"
    using do_call_op[of x m k t] ap by simp
  also have "\<dots> = m\<lparr>listeners := fst (apply_ops k xs (L', t'))\<rparr>"
    using Cons.IH[of "m\<lparr>listeners := L'\<rparr>" t'] by simp
  finally show ?case using ap by simp
qed

lemma do_calls_append: "do_calls (xs @ ys) m = do_calls ys (do_calls xs m)"
  by (induction xs arbitrary: m) simp_all

lemma forEach_as_calls:
  "forEach n env ev (listeners m) todo a = Some r \<Longrightarrow>
   m\<lparr>listeners := reg_after r\<rparr> = do_calls (map op_call (performed r)) m"
proof (induction n arbitrary: m todo a r)
  case 0
  then show ?case by (cases todo) auto
next
  case (Suc n)
  show ?case
  proof (cases todo)
    case Nil
    with Suc.prems show ?thesis by auto
  next
    case (Cons f rest)
    with Suc.prems have "forEach (Suc n) env ev (listeners m) (f # rest) a = Some r" by simp
    then show ?thesis
    proof (cases rule: forEach_Some_cases)
      case (1 n' ops c a' L' todo')
      have step: "do_calls (map op_call ops) m = m\<lparr>listeners := L'\<rparr>"
        using do_calls_ops[of ops m "ekind ev" rest] 1(3) by simp
      from 1(4) show ?thesis
      proof
        assume "c = Raises \<and> r = \<lparr>finished = Threw f, reg_after = L', app_after = a',
                          invoked = [(f, ev)], performed = ops\<rparr>"
        with step show ?thesis by simp
      next
        assume "c = Returns \<and> (\<exists>r'. forEach n' env ev L' todo' a' = Some r' \<and>
         r = r'\<lparr>invoked := (f, ev) # invoked r', performed := ops @ performed r'\<rparr>)"
        then obtain r' where r': "forEach n' env ev L' todo' a' = Some r'"
          and r: "r = r'\<lparr>invoked := (f, ev) # invoked r', performed := ops @ performed r'\<rparr>"
          by blast
        from 1(1) r' have "forEach n env ev (listeners (m\<lparr>listeners := L'\<rparr>)) todo' a' = Some r'"
          by simp
        from Suc.IH[OF this]
        have "m\<lparr>listeners := reg_after r'\<rparr> = do_calls (map op_call (performed r')) (m\<lparr>listeners := L'\<rparr>)"
          by simp
        with step r show ?thesis by (simp add: do_calls_append)
      qed
    qed
  qed
qed

lemma dispatch_as_calls:
  "dispatch n env ev m a = Some r \<Longrightarrow>
   m\<lparr>listeners := reg_after r\<rparr> = do_calls (map op_call (performed r)) m"
  unfolding dispatch_eq by (rule forEach_as_calls)

subsection \<open>Rolling back a failed start\<close>

lemma set_state_member:
  "d' \<in> set (set_state x st ms) \<Longrightarrow>
   \<exists>d\<in>set ms. mod_name d' = mod_name d \<and>
     mod_state d' = (if mod_name d = x then st else mod_state d)"
  by (auto simp: set_state_def)

lemma stop_modules_member:
  "d' \<in> set (stop_modules ys ms) \<Longrightarrow>
   \<exists>d\<in>set ms. mod_name d' = mod_name d \<and>
     mod_state d' = (if mod_name d \<in> set ys then Stopped else mod_state d)"
proof (induction ys arbitrary: ms)
  case Nil
  then show ?case by auto
next
  case (Cons y ys)
  from Cons.prems have "d' \<in> set (stop_modules ys (set_state y Stopped ms))" by simp
  from Cons.IH[OF this] obtain d1 where d1: "d1 \<in> set (set_state y Stopped ms)"
    "mod_name d' = mod_name d1"
    "mod_state d' = (if mod_name d1 \<in> set ys then Stopped else mod_state d1)" by blast
  from set_state_member[OF d1(1)] obtain d where d: "d \<in> set ms" "mod_name d1 = mod_name d"
    "mod_state d1 = (if mod_name d = y then Stopped else mod_state d)" by blast
  from d1(2,3) d(2,3) have "mod_name d' = mod_name d \<and>
     mod_state d' = (if mod_name d \<in> set (y # ys) then Stopped else mod_state d)"
    by simp
  with d(1) show ?case by blast
qed

lemma rollback_member:
  assumes "d' \<in> set (stop_modules started (set_state x Failed ms))"
    and "\<forall>d\<in>set ms. mod_state d = Running \<longrightarrow> mod_name d \<in> set started"
  shows "mod_state d' \<noteq> Running \<and> (mod_name d' \<in> set started \<longrightarrow> mod_state d' = Stopped) \<and>
     (mod_name d' = x \<and> x \<notin> set started \<longrightarrow> mod_state d' = Failed)"
proof -
  from stop_modules_member[OF assms(1)] obtain d1 where d1: "d1 \<in> set (set_state x Failed ms)"
    "mod_name d' = mod_name d1"
    "mod_state d' = (if mod_name d1 \<in> set started then Stopped else mod_state d1)" by blast
  from set_state_member[OF d1(1)] obtain d where d: "d \<in> set ms" "mod_name d1 = mod_name d"
    "mod_state d1 = (if mod_name d = x then Failed else mod_state d)" by blast
  from assms(2) d(1) have "mod_state d = Running \<longrightarrow> mod_name d \<in> set started" by blast
  with d1(2,3) d(2,3) show ?thesis by auto
qed

lemma start_modules_failure:
  assumes "start_modules ok xs started ms = (Inl e, ms', calls)"
    and "\<forall>d\<in>set ms. mod_state d = Running \<longrightarrow> mod_name d \<in> set started"
  shows "\<exists>pre x. e = StartError x \<and> \<not> ok x \<and> (\<forall>y\<in>set pre. ok y) \<and>
     calls = map Start pre @ [Start x] @ map Stop (rev pre @ started) \<and>
     (\<forall>d\<in>set ms'. mod_state d \<noteq> Running \<and>
        (mod_name d \<in> set pre \<union> set started \<longrightarrow> mod_state d = Stopped) \<and>
        (mod_name d = x \<and> x \<notin> set started \<longrightarrow> mod_state d = Failed))"
  using assms
proof (induction xs arbitrary: started ms calls)
  case Nil
  then show ?case by simp
next
  case (Cons x xs)
  show ?case
  proof (cases "ok x")
    case True
    with Cons.prems(1) obtain calls' where
      rec: "start_modules ok xs (x # started) (set_state x Running ms) = (Inl e, ms', calls')"
      and calls: "calls = Start x # calls'"
      by (auto split: prod.splits)
    have inv: "\<forall>d\<in>set (set_state x Running ms). mod_state d = Running \<longrightarrow> mod_name d \<in> set (x # started)"
    proof
      fix d' assume "d' \<in> set (set_state x Running ms)"
      from set_state_member[OF this] obtain d where "d \<in> set ms" "mod_name d' = mod_name d"
        "mod_state d' = (if mod_name d = x then Running else mod_state d)" by blast
      with Cons.prems(2) show "mod_state d' = Running \<longrightarrow> mod_name d' \<in> set (x # started)"
        by (cases "mod_name d = x") auto
    qed
    from Cons.IH[OF rec inv] obtain pre y where
      p: "e = StartError y" "\<not> ok y" "\<forall>z\<in>set pre. ok z"
        "calls' = map Start pre @ [Start y] @ map Stop (rev pre @ x # started)"
      and q: "\<forall>d\<in>set ms'. mod_state d \<noteq> Running \<and>
        (mod_name d \<in> set pre \<union> set (x # started) \<longrightarrow> mod_state d = Stopped) \<and>
        (mod_name d = y \<and> y \<notin> set (x # started) \<longrightarrow> mod_state d = Failed)"
      by blast
    from p(2) True have yx: "y \<noteq> x" by blast
    have c1: "\<forall>z\<in>set (x # pre). ok z" using p(3) True by simp
    have c2: "calls = map Start (x # pre) @ [Start y] @ map Stop (rev (x # pre) @ started)"
      using calls p(4) by simp
    have c3: "\<forall>d\<in>set ms'. mod_state d \<noteq> Running \<and>
        (mod_name d \<in> set (x # pre) \<union> set started \<longrightarrow> mod_state d = Stopped) \<and>
        (mod_name d = y \<and> y \<notin> set started \<longrightarrow> mod_state d = Failed)"
    proof
      fix d assume "d \<in> set ms'"
      with q have "mod_state d \<noteq> Running \<and>
        (mod_name d \<in> set pre \<union> set (x # started) \<longrightarrow> mod_state d = Stopped) \<and>
        (mod_name d = y \<and> y \<notin> set (x # started) \<longrightarrow> mod_state d = Failed)" by blast
      with yx show "mod_state d \<noteq> Running \<and>
        (mod_name d \<in> set (x # pre) \<union> set started \<longrightarrow> mod_state d = Stopped) \<and>
        (mod_name d = y \<and> y \<notin> set started \<longrightarrow> mod_state d = Failed)" by simp
    qed
    from p(1,2) c1 c2 c3 show ?thesis by blast
  next
    case False
    with Cons.prems(1) have e: "e = StartError x"
      and ms': "ms' = stop_modules started (set_state x Failed ms)"
      and calls: "calls = Start x # map Stop started" by simp_all
    have c3: "\<forall>d\<in>set ms'. mod_state d \<noteq> Running \<and>
        (mod_name d \<in> set [] \<union> set started \<longrightarrow> mod_state d = Stopped) \<and>
        (mod_name d = x \<and> x \<notin> set started \<longrightarrow> mod_state d = Failed)"
    proof
      fix d assume "d \<in> set ms'"
      then have "d \<in> set (stop_modules started (set_state x Failed ms))" by (simp add: ms')
      from rollback_member[OF this Cons.prems(2)]
      show "mod_state d \<noteq> Running \<and>
        (mod_name d \<in> set [] \<union> set started \<longrightarrow> mod_state d = Stopped) \<and>
        (mod_name d = x \<and> x \<notin> set started \<longrightarrow> mod_state d = Failed)" by simp
    qed
    have c1: "\<forall>z\<in>set []. ok z" by simp
    have c2: "calls = map Start [] @ [Start x] @ map Stop (rev [] @ started)"
      using calls by simp
    from e False c1 c2 c3 show ?thesis by blast
  qed
qed

subsection \<open>The invariant of the registry\<close>

text \<open>
  No set of the registry repeats an element: this holds when the module is loaded and is
  kept by every call a client can make and by every dispatch.
\<close>

lemma wf_registry_handlers: "wf_registry L \<Longrightarrow> distinct (handlers_of k L)"
  by (cases k) (simp_all add: wf_registry_def)

lemma wf_registry_put:
  "wf_registry L \<Longrightarrow> distinct xs \<Longrightarrow> wf_registry (put_handlers k xs L)"
  by (cases k) (simp_all add: wf_registry_def)

lemma wf_registry_add: "wf_registry L \<Longrightarrow> wf_registry (reg_add k f L)"
  by (simp add: reg_add_def wf_registry_put distinct_set_add wf_registry_handlers)

lemma wf_registry_delete: "wf_registry L \<Longrightarrow> wf_registry (reg_delete k f L)"
  by (simp add: reg_delete_def set_delete_def wf_registry_put distinct_removeAll
      wf_registry_handlers)

lemma wf_registry_do_call:
  "wf_registry (listeners m) \<Longrightarrow> wf_registry (listeners (do_call c m))"
  by (cases c)
     (simp_all add: listeners_useAppWebSocket subscribe_eq delete_listener_def
        wf_registry_add wf_registry_delete)

lemma wf_registry_do_calls:
  "wf_registry (listeners m) \<Longrightarrow> wf_registry (listeners (do_calls cs m))"
  by (induction cs arbitrary: m) (simp_all add: wf_registry_do_call)

lemma wf_registry_reachable: "wf_registry (listeners (do_calls cs initial))"
  by (rule wf_registry_do_calls) (simp add: initial_def empty_registry_def wf_registry_def)

lemma wf_registry_apply_op: "wf_registry (fst st) \<Longrightarrow> wf_registry (fst (apply_op k x st))"
  by (cases x; cases st) (simp_all add: wf_registry_add wf_registry_delete)

lemma wf_registry_apply_ops: "wf_registry (fst st) \<Longrightarrow> wf_registry (fst (apply_ops k xs st))"
  by (induction xs arbitrary: st) (simp_all add: wf_registry_apply_op)

lemma wf_registry_forEach:
  "forEach n env ev L todo a = Some r \<Longrightarrow> wf_registry L \<Longrightarrow> wf_registry (reg_after r)"
proof (induction n arbitrary: L todo a r)
  case 0
  then show ?case by (cases todo) auto
next
  case (Suc n)
  show ?case
  proof (cases todo)
    case Nil
    with Suc.prems show ?thesis by auto
  next
    case (Cons f rest)
    with Suc.prems(1) have "forEach (Suc n) env ev L (f # rest) a = Some r" by simp
    then show ?thesis
    proof (cases rule: forEach_Some_cases)
      case (1 n' ops c a' L' todo')
      have wf': "wf_registry L'"
        using wf_registry_apply_ops[of "(L, rest)" "ekind ev" ops] Suc.prems(2) 1(3) by simp
      from 1(4) show ?thesis
      proof
        assume "c = Raises \<and> r = \<lparr>finished = Threw f, reg_after = L', app_after = a',
                          invoked = [(f, ev)], performed = ops\<rparr>"
        with wf' show ?thesis by simp
      next
        assume "c = Returns \<and> (\<exists>r'. forEach n' env ev L' todo' a' = Some r' \<and>
         r = r'\<lparr>invoked := (f, ev) # invoked r', performed := ops @ performed r'\<rparr>)"
        then obtain r' where r': "forEach n' env ev L' todo' a' = Some r'"
          and r: "r = r'\<lparr>invoked := (f, ev) # invoked r', performed := ops @ performed r'\<rparr>"
          by blast
        from 1(1) r' have "forEach n env ev L' todo' a' = Some r'" by simp
        from Suc.IH[OF this wf'] r show ?thesis by simp
      qed
    qed
  qed
qed

lemma wf_registry_run:
  "run n env i evs m a = Some (m', a', tr) \<Longrightarrow> wf_registry (listeners m) \<Longrightarrow>
   wf_registry (listeners m')"
proof (induction evs arbitrary: i m a tr)
  case Nil
  then show ?case by simp
next
  case (Cons ev evs)
  from Cons.prems(1) obtain r tr' where
    d: "dispatch n env ev m a = Some r"
    and rest: "run n env (Suc i) evs (m\<lparr>listeners := reg_after r\<rparr>) (app_after r) = Some (m', a', tr')"
    by (auto split: option.splits)
  from wf_registry_forEach[OF d[unfolded dispatch_eq] Cons.prems(2)]
  have "wf_registry (listeners (m\<lparr>listeners := reg_after r\<rparr>))" by simp
  from Cons.IH[OF rest this] show ?case .
qed

text \<open>
  A dispatch need not return: with a handler that unsubscribes and subscribes itself again
  whenever it runs, no amount of fuel is enough.
\<close>

lemma resubscribing_never_returns:
  "forEach n looping_env \<lparr>ekind = Message, payload = p\<rparr> L [f] a = None"
proof (induction n arbitrary: L a)
  case 0
  show ?case by simp
next
  case (Suc n)
  have "apply_ops Message [Unsubscribe Message f, Subscribe Message f] (L, []) =
      (reg_add Message f (reg_delete Message f L), [f])"
    by (simp add: handlers_of_reg_delete)
  with Suc.IH show ?case by (simp add: looping_env_def)
qed

subsection \<open>The log of a re-entrant run\<close>

text \<open>
  A callback that ends with no event accepted in between has logged calls for its own
  event only; an event fired by a handler is always accepted in between.
\<close>

lemma do_op_frame [simp]: "w_accepted (do_op x w) = w_accepted w" "w_log (do_op x w) = w_log w"
  by (simp_all add: do_op_def)

lemma same_event_calls_refl: "w_log w' = w_log w \<Longrightarrow> same_event_calls i ev w w'"
  by (simp add: same_event_calls_def)

lemma same_event_calls_trans:
  "same_event_calls i ev w w1 \<Longrightarrow> same_event_calls i ev w1 w2 \<Longrightarrow> same_event_calls i ev w w2"
  by (auto simp: same_event_calls_def)

lemma nested_accepts:
  "(\<forall>env i ev w w'. walk n env i ev (w::'a world) = Some w' \<longrightarrow>
      w_accepted w \<le> w_accepted w' \<and>
      (w_accepted w' = w_accepted w \<longrightarrow> same_event_calls i ev w w')) \<and>
   (\<forall>env acts w w'. perform n env acts (w::'a world) = Some w' \<longrightarrow>
      w_accepted w \<le> w_accepted w' \<and>
      (w_accepted w' = w_accepted w \<longrightarrow> w_log w' = w_log w)) \<and>
   (\<forall>env ev w w'. accept n env ev (w::'a world) = Some w' \<longrightarrow>
      w_accepted w < w_accepted w' \<and>
      (w_accepted w' = Suc (w_accepted w) \<longrightarrow> same_event_calls (w_accepted w) ev w w'))"
proof (induction n)
  case 0
  show ?case by simp
next
  case (Suc n)
  then have W: "\<And>env i ev (w::'a world) w'. walk n env i ev w = Some w' \<Longrightarrow>
      w_accepted w \<le> w_accepted w' \<and>
      (w_accepted w' = w_accepted w \<longrightarrow> same_event_calls i ev w w')"
    and P: "\<And>env acts (w::'a world) w'. perform n env acts w = Some w' \<Longrightarrow>
      w_accepted w \<le> w_accepted w' \<and>
      (w_accepted w' = w_accepted w \<longrightarrow> w_log w' = w_log w)"
    and A: "\<And>env ev (w::'a world) w'. accept n env ev w = Some w' \<Longrightarrow>
      w_accepted w < w_accepted w' \<and>
      (w_accepted w' = Suc (w_accepted w) \<longrightarrow> same_event_calls (w_accepted w) ev w w')"
    by blast+
  have walk_step: "w_accepted w \<le> w_accepted w' \<and>
      (w_accepted w' = w_accepted w \<longrightarrow> same_event_calls i ev w w')"
    if h: "walk (Suc n) env i ev w = Some w'" for env i ev and w w' :: "'a world"
  proof (cases "w_walks w")
    case Nil
    with h show ?thesis by (simp add: same_event_calls_refl)
  next
    case (Cons top outer)
    obtain k todo where top: "top = (k, todo)" by (cases top) auto
    show ?thesis
    proof (cases todo)
      case Nil
      with h Cons top show ?thesis by (auto simp: same_event_calls_refl)
    next
      case (Cons f rest)
      obtain acts c a' where e: "env f (w_reg w) (w_app w) ev = (acts, c, a')"
        by (cases "env f (w_reg w) (w_app w) ev") auto
      let ?w0 = "w\<lparr>w_walks := (k, rest) # outer, w_app := a', w_log := w_log w @ [(i, f, ev)]\<rparr>"
      from h \<open>w_walks w = top # outer\<close> top Cons e obtain w1 where
        p: "perform n env acts ?w0 = Some w1"
        and fin: "(c = Raises \<and> w' = w1\<lparr>w_walks := tl (w_walks w1)\<rparr>) \<or>
                  (c = Returns \<and> walk n env i ev w1 = Some w')"
        by (auto split: option.splits completion.splits)
      from P[OF p] have p1: "w_accepted w \<le> w_accepted w1"
        and p2: "w_accepted w1 = w_accepted w \<longrightarrow> w_log w1 = w_log w @ [(i, f, ev)]" by simp_all
      have first: "w_accepted w1 = w_accepted w \<longrightarrow> same_event_calls i ev w w1"
        using p2 by (auto simp: same_event_calls_def)
      from fin show ?thesis
      proof
        assume "c = Raises \<and> w' = w1\<lparr>w_walks := tl (w_walks w1)\<rparr>"
        then have "w_accepted w' = w_accepted w1" "w_log w' = w_log w1" by simp_all
        with p1 first show ?thesis by (auto simp: same_event_calls_def)
      next
        assume "c = Returns \<and> walk n env i ev w1 = Some w'"
        then have "walk n env i ev w1 = Some w'" by simp
        from W[OF this] have q1: "w_accepted w1 \<le> w_accepted w'"
          and q2: "w_accepted w' = w_accepted w1 \<longrightarrow> same_event_calls i ev w1 w'" by simp_all
        show ?thesis
        proof
          show "w_accepted w \<le> w_accepted w'" using p1 q1 by simp
          show "w_accepted w' = w_accepted w \<longrightarrow> same_event_calls i ev w w'"
          proof
            assume "w_accepted w' = w_accepted w"
            with p1 q1 have "w_accepted w1 = w_accepted w" "w_accepted w' = w_accepted w1"
              by simp_all
            with first q2 show "same_event_calls i ev w w'"
              by (blast intro: same_event_calls_trans)
          qed
        qed
      qed
    qed
  qed
  have perform_step: "w_accepted w \<le> w_accepted w' \<and>
      (w_accepted w' = w_accepted w \<longrightarrow> w_log w' = w_log w)"
    if h: "perform (Suc n) env acts w = Some w'" for env acts and w w' :: "'a world"
  proof (cases acts)
    case Nil
    with h show ?thesis by simp
  next
    case (Cons act rest)
    show ?thesis
    proof (cases act)
      case (Do x)
      with h Cons have "perform n env rest (do_op x w) = Some w'" by simp
      from P[OF this] show ?thesis by simp
    next
      case (Fire e)
      with h Cons obtain w1 where a: "accept n env e w = Some w1"
        and p: "perform n env rest w1 = Some w'" by (auto split: option.splits)
      from A[OF a] P[OF p] show ?thesis by simp
    qed
  qed
  have accept_step: "w_accepted w < w_accepted w' \<and>
      (w_accepted w' = Suc (w_accepted w) \<longrightarrow> same_event_calls (w_accepted w) ev w w')"
    if h: "accept (Suc n) env ev w = Some w'" for env ev and w w' :: "'a world"
  proof -
    let ?w0 = "w\<lparr>w_accepted := Suc (w_accepted w),
          w_walks := (ekind ev, handlers_of (ekind ev) (w_reg w)) # w_walks w\<rparr>"
    from h have "walk n env (w_accepted w) ev ?w0 = Some w'" by simp
    from W[OF this] show ?thesis by (auto simp: same_event_calls_def)
  qed
  from walk_step perform_step accept_step show ?case by blast
qed

lemma accept_calls:
  assumes "accept n env ev w = Some w'"
  shows "w_accepted w < w_accepted w'"
    and "w_accepted w' = Suc (w_accepted w) \<Longrightarrow> same_event_calls (w_accepted w) ev w w'"
  using nested_accepts[of n] assms by blast+

lemma ordered_log_accept:
  assumes "ordered_log seen w" and "same_event_calls (w_accepted w) ev w w'"
    and "w_accepted w' = Suc (w_accepted w)"
  shows "ordered_log (seen @ [ev]) w'"
proof -
  from assms(2) obtain calls where log: "w_log w' = w_log w @ calls"
    and calls: "\<forall>x\<in>set calls. fst x = w_accepted w \<and> snd (snd x) = ev"
    by (auto simp: same_event_calls_def)
  from assms(1) have acc: "w_accepted w = length seen" and s: "sorted (map fst (w_log w))"
    and tags: "\<forall>x\<in>set (w_log w). fst x < length seen \<and> snd (snd x) = seen ! fst x"
    by (simp_all add: ordered_log_def)
  have "map fst calls = map (\<lambda>x. length seen) calls" using calls acc by (intro map_cong) auto
  then have sc: "sorted (map fst calls)" by (simp only: sorted_map_const)
  have s': "sorted (map fst (w_log w'))"
    unfolding log using s sc tags calls acc by (fastforce simp: sorted_append)
  have t': "\<forall>x\<in>set (w_log w'). fst x < length (seen @ [ev]) \<and> snd (snd x) = (seen @ [ev]) ! fst x"
  proof
    fix x assume "x \<in> set (w_log w')"
    with log consider "x \<in> set (w_log w)" | "x \<in> set calls" by auto
    then show "fst x < length (seen @ [ev]) \<and> snd (snd x) = (seen @ [ev]) ! fst x"
    proof cases
      case 1
      with tags show ?thesis by (auto simp: nth_append)
    next
      case 2
      with calls acc show ?thesis by (auto simp: nth_append)
    qed
  qed
  from assms(3) acc s' t' show ?thesis by (simp add: ordered_log_def)
qed

lemma deliver_ordered:
  assumes "deliver n env evs w = Some w'"
  shows "w_accepted w + length evs \<le> w_accepted w' \<and>
     (w_accepted w' = w_accepted w + length evs \<longrightarrow>
      (\<forall>seen. ordered_log seen w \<longrightarrow> ordered_log (seen @ evs) w'))"
  using assms
proof (induction evs arbitrary: w)
  case Nil
  then show ?case by simp
next
  case (Cons ev evs)
  from Cons.prems obtain w1 where a: "accept n env ev w = Some w1"
    and d: "deliver n env evs w1 = Some w'" by (auto split: option.splits)
  from accept_calls(1)[OF a] have lt: "w_accepted w < w_accepted w1" .
  from Cons.IH[OF d] have le: "w_accepted w1 + length evs \<le> w_accepted w'"
    and ih: "w_accepted w' = w_accepted w1 + length evs \<longrightarrow>
      (\<forall>seen. ordered_log seen w1 \<longrightarrow> ordered_log (seen @ evs) w')" by simp_all
  have "ordered_log (seen @ ev # evs) w'"
    if eq: "w_accepted w' = w_accepted w + length (ev # evs)" and o: "ordered_log seen w" for seen
  proof -
    from eq lt le have one: "w_accepted w1 = Suc (w_accepted w)"
      and rest: "w_accepted w' = w_accepted w1 + length evs" by simp_all
    from ordered_log_accept[OF o accept_calls(2)[OF a one] one]
    have "ordered_log (seen @ [ev]) w1" .
    with ih rest have "ordered_log ((seen @ [ev]) @ evs) w'" by blast
    then show ?thesis by simp
  qed
  with lt le show ?case by auto
qed

subsection \<open>The page: reconnections and the members of a handle\<close>






subsection \<open>When a start fails\<close>

lemma start_order_names:
  "start_order n rem acc = Inr order \<Longrightarrow> set order = set acc \<union> mod_name ` set rem"
proof (induction n arbitrary: rem acc)
  case 0
  then show ?case by (cases rem) auto
next
  case (Suc n)
  show ?case
  proof (cases rem)
    case Nil
    with Suc.prems show ?thesis by auto
  next
    case (Cons d ds)
    with Suc.prems obtain x where
      f: "find (\<lambda>x. list_all (\<lambda>y. y \<in> set acc) (mod_deps x)) rem = Some x"
      and r: "start_order n (remove1 x rem) (acc @ [mod_name x]) = Inr order"
      by (auto split: option.splits)
    from f have x: "x \<in> set rem" by (auto simp: find_Some_iff)
    have "mod_name ` set rem = insert (mod_name x) (mod_name ` set (remove1 x rem))"
    proof
      show "mod_name ` set rem \<subseteq> insert (mod_name x) (mod_name ` set (remove1 x rem))"
      proof
        fix y assume "y \<in> mod_name ` set rem"
        then obtain d' where d': "d' \<in> set rem" "y = mod_name d'" by auto
        show "y \<in> insert (mod_name x) (mod_name ` set (remove1 x rem))"
        proof (cases "d' = x")
          case True
          with d' show ?thesis by simp
        next
          case False
          with d'(1) have "d' \<in> set (remove1 x rem)" by simp
          with d'(2) show ?thesis by auto
        qed
      qed
      show "insert (mod_name x) (mod_name ` set (remove1 x rem)) \<subseteq> mod_name ` set rem"
        using x set_remove1_subset[of x rem] by auto
    qed
    with Suc.IH[OF r] show ?thesis by auto
  qed
qed

lemma start_order_error:
  "start_order n rem acc = Inl e \<Longrightarrow> \<exists>c. e = DependencyCycle c"
proof (induction n arbitrary: rem acc)
  case 0
  then show ?case by (cases rem) auto
next
  case (Suc n)
  show ?case
  proof (cases rem)
    case Nil
    with Suc.prems show ?thesis by auto
  next
    case (Cons d ds)
    show ?thesis
    proof (cases "find (\<lambda>x. list_all (\<lambda>y. y \<in> set acc) (mod_deps x)) rem")
      case None
      with Suc.prems Cons show ?thesis by auto
    next
      case (Some x)
      with Suc.prems Cons have "start_order n (remove1 x rem) (acc @ [mod_name x]) = Inl e"
        by auto
      from Suc.IH[OF this] show ?thesis .
    qed
  qed
qed

lemma start_modules_fails:
  "\<exists>x\<in>set xs. \<not> ok x \<Longrightarrow> \<exists>e ms' calls. start_modules ok xs started ms = (Inl e, ms', calls)"
proof (induction xs arbitrary: started ms)
  case Nil
  then show ?case by simp
next
  case (Cons x xs)
  show ?case
  proof (cases "ok x")
    case True
    with Cons.prems have "\<exists>y\<in>set xs. \<not> ok y" by auto
    from Cons.IH[OF this, of "x # started" "set_state x Running ms"] obtain e ms' calls where
      "start_modules ok xs (x # started) (set_state x Running ms) = (Inl e, ms', calls)" by blast
    with True show ?thesis by simp
  next
    case False
    then show ?thesis by simp
  qed
qed

section \<open>The claims\<close>




text \<open>
  Claim C2. Unsubscribing is idempotent: for a handler registered through any of the four
  subscription functions, calling the returned closure a second time leaves the module
  state as the first call left it, and the second call just returns \<open>False\<close>, the result
  of \<^verbatim>\<open>delete\<close> on a value that is not an element.
\<close>

theorem unsubscribe_idempotent:
  "snd (fst (subscribe k f m) (snd (fst (subscribe k f m) (snd (subscribe k f m))))) =
     snd (fst (subscribe k f m) (snd (subscribe k f m))) \<and>
   fst (fst (subscribe k f m) (snd (fst (subscribe k f m) (snd (subscribe k f m))))) = False"
  by (simp add: subscribe_eq delete_listener_def reg_delete_def reg_add_def set_delete_def)

text \<open>
  Claim C3 says that of two events accepted by the dispatcher in some order, every listener
  registered for both observes the first one first. It fails when a handler fires an event
  on the socket it is handed: handlers 1 and 2 are subscribed to \<^verbatim>\<open>message\<close>, the event with
  payload 7 is accepted first, handler 1 fires the event with payload 8 from inside its
  call, and handler 2 is called with 8 before it is called with 7.
\<close>

theorem reentrant_dispatch_reorders:
  "map_option w_log
     (deliver 12 firing_env [\<lparr>ekind = Message, payload = 7\<rparr>]
        (start_world (snd (onMessage 2 (snd (onMessage 1 initial)))) ())) =
   Some [(0, 1, \<lparr>ekind = Message, payload = 7\<rparr>), (1, 1, \<lparr>ekind = Message, payload = 8\<rparr>),
         (1, 2, \<lparr>ekind = Message, payload = 8\<rparr>), (0, 2, \<lparr>ekind = Message, payload = 7\<rparr>)]"
  by code_simp

text \<open>
  Claim C3 as amended. In a run in which every event accepted was delivered by the socket
  from the event loop, none being fired by a handler from within a dispatch, every call of
  a handler for an earlier-accepted event comes before every call for a later-accepted
  one; so a listener registered for both observes them in that order, and the calls of any
  one listener are in the order in which their events were accepted. Every call in the log
  carries the event accepted under its number.
\<close>

theorem dispatch_order:
  assumes "deliver n env evs (start_world m a) = Some w"
    and "w_accepted w = length evs"
  shows "(\<forall>p q. p < length (w_log w) \<and> q < length (w_log w) \<and>
            fst (w_log w ! p) < fst (w_log w ! q) \<longrightarrow> p < q) \<and>
     (\<forall>f. sorted (map fst (filter (\<lambda>x. fst (snd x) = f) (w_log w)))) \<and>
     (\<forall>x\<in>set (w_log w). fst x < length evs \<and> snd (snd x) = evs ! fst x)"
proof -
  have "ordered_log [] (start_world m a)"
    by (simp add: ordered_log_def start_world_def)
  moreover have "w_accepted w = w_accepted (start_world m a) + length evs"
    using assms(2) by (simp add: start_world_def)
  ultimately have "ordered_log ([] @ evs) w"
    using deliver_ordered[OF assms(1)] by blast
  then have s: "sorted (map fst (w_log w))"
    and tags: "\<forall>x\<in>set (w_log w). fst x < length evs \<and> snd (snd x) = evs ! fst x"
    by (simp_all add: ordered_log_def)
  have "p < q"
    if "p < length (w_log w)" "q < length (w_log w)" "fst (w_log w ! p) < fst (w_log w ! q)"
    for p q
  proof (rule ccontr)
    assume "\<not> p < q"
    then have "q \<le> p" by simp
    with s that(1) have "map fst (w_log w) ! q \<le> map fst (w_log w) ! p"
      by (intro sorted_nth_mono) simp_all
    with that show False by simp
  qed
  moreover have "sorted (map fst (filter (\<lambda>x. fst (snd x) = f) (w_log w)))" for f
    using s by (rule sorted_filter)
  ultimately show ?thesis using tags by blast
qed

theorem dispatch_order_witness:
  "deliver 6 (lift_env faulty_env)
       [\<lparr>ekind = Connected, payload = 5\<rparr>, \<lparr>ekind = Message, payload = 6\<rparr>]
       (start_world (snd (onMessage 1 (snd (onConnected 1 (snd (onConnected 2 initial)))))) ()) =
     Some \<lparr>w_reg = \<lparr>connected = [2, 1], disconnected = [], error = [], message = [1]\<rparr>,
           w_app = (), w_walks = [], w_accepted = 2,
           w_log = [(0, 2, \<lparr>ekind = Connected, payload = 5\<rparr>),
                    (0, 1, \<lparr>ekind = Connected, payload = 5\<rparr>),
                    (1, 1, \<lparr>ekind = Message, payload = 6\<rparr>)]\<rparr> \<and>
   sorted (map fst (filter (\<lambda>x. fst (snd x) = 1)
           [(0::nat, 2::fn, \<lparr>ekind = Connected, payload = 5\<rparr>),
            (0, 1, \<lparr>ekind = Connected, payload = 5\<rparr>),
            (1, 1, \<lparr>ekind = Message, payload = 6\<rparr>)]))"
proof -
  let ?w = "\<lparr>w_reg = \<lparr>connected = [2, 1], disconnected = [], error = [], message = [1]\<rparr>,
           w_app = (), w_walks = [], w_accepted = 2,
           w_log = [(0, 2, \<lparr>ekind = Connected, payload = 5\<rparr>),
                    (0, 1, \<lparr>ekind = Connected, payload = 5\<rparr>),
                    (1, 1, \<lparr>ekind = Message, payload = 6\<rparr>)]\<rparr>"
  have d: "deliver 6 (lift_env faulty_env)
       [\<lparr>ekind = Connected, payload = 5\<rparr>, \<lparr>ekind = Message, payload = 6\<rparr>]
       (start_world (snd (onMessage 1 (snd (onConnected 1 (snd (onConnected 2 initial)))))) ()) =
     Some ?w"
    by code_simp
  have acc: "w_accepted ?w = length [\<lparr>ekind = Connected, payload = 5\<rparr>, \<lparr>ekind = Message, payload = 6\<rparr>]"
    by simp
  from dispatch_order[OF d acc] have
    "sorted (map fst (filter (\<lambda>x. fst (snd x) = 1) (w_log ?w)))" by (elim conjE allE)
  then have "sorted (map fst (filter (\<lambda>x. fst (snd x) = 1)
           [(0::nat, 2::fn, \<lparr>ekind = Connected, payload = 5\<rparr>),
            (0, 1, \<lparr>ekind = Connected, payload = 5\<rparr>),
            (1, 1, \<lparr>ekind = Message, payload = 6\<rparr>)]))" by simp
  with d show ?thesis by (intro conjI)
qed

text \<open>
  Claim C4. The handlers of the header component are two closures created by its setup:
  they are in no set before, and no handler subscribes them. Once the component is
  unmounted, after any events dispatched while it was mounted, neither closure is in any
  set of the registry, neither is called for any event dispatched afterwards, and neither
  is in the registry at the end.
\<close>

theorem unmounted_component_is_silent:
  assumes fresh: "\<forall>k. h1 \<notin> set (handlers_of k (listeners m)) \<and> h2 \<notin> set (handlers_of k (listeners m))"
    and sealed: "\<forall>g L a e k. Subscribe k h1 \<notin> set (fst (env g L a e)) \<and>
                    Subscribe k h2 \<notin> set (fst (env g L a e))"
    and mounted: "header_setup h1 h2 m = (c, m1)"
    and phase1: "run n env i evs1 m1 a = Some (m2, a2, tr1)"
    and phase2: "run n env j evs2 (onUnmounted c m2) a2 = Some (m3, a3, tr2)"
  shows "(\<forall>k. h1 \<notin> set (handlers_of k (listeners (onUnmounted c m2))) \<and>
               h2 \<notin> set (handlers_of k (listeners (onUnmounted c m2)))) \<and>
     (\<forall>x\<in>set tr2. fst (snd x) \<noteq> h1 \<and> fst (snd x) \<noteq> h2) \<and>
     (\<forall>k. h1 \<notin> set (handlers_of k (listeners m3)) \<and> h2 \<notin> set (handlers_of k (listeners m3)))"
proof -
  from mounted have c: "c = \<lparr>unlistenOnConnected = delete_listener Connected h1,
       unlistenOnDisconnected = delete_listener Disconnected h2\<rparr>"
    and m1: "listeners m1 = reg_add Disconnected h2 (reg_add Connected h1 (listeners m))"
    by (auto simp: header_setup_eq)
  have un: "listeners (onUnmounted c m2) =
      reg_delete Disconnected h2 (reg_delete Connected h1 (listeners m2))"
    unfolding c by (rule listeners_onUnmounted)
  have gone: "h \<notin> set (handlers_of k (listeners (onUnmounted c m2)))"
    if h: "h = h1 \<or> h = h2" for h k
  proof (cases "(k = Connected \<and> h = h1) \<or> (k = Disconnected \<and> h = h2)")
    case True
    then show ?thesis unfolding un
      by (auto simp: handlers_of_reg_delete)
  next
    case False
    from fresh h have "h \<notin> set (handlers_of k (listeners m))" by blast
    with False h have "h \<notin> set (handlers_of k (listeners m1))"
      unfolding m1 by (auto simp: handlers_of_reg_add set_add_def)
    moreover from sealed h have "\<forall>g L a e. Subscribe k h \<notin> set (fst (env g L a e))" by blast
    ultimately have "h \<notin> set (handlers_of k (listeners m2))"
      using run_not_subscribed[OF phase1] by blast
    then show ?thesis unfolding un
      by (auto simp: handlers_of_reg_delete)
  qed
  have later: "h \<notin> set (handlers_of k (listeners m3)) \<and>
      (\<forall>x\<in>set tr2. fst (snd x) = h \<longrightarrow> ekind (snd (snd x)) \<noteq> k)"
    if h: "h = h1 \<or> h = h2" for h k
  proof -
    from sealed h have "\<forall>g L a e. Subscribe k h \<notin> set (fst (env g L a e))" by blast
    from run_not_subscribed[OF phase2 this gone[OF h]] show ?thesis .
  qed
  have "fst (snd x) \<noteq> h1 \<and> fst (snd x) \<noteq> h2" if "x \<in> set tr2" for x
    using later[of h1 "ekind (snd (snd x))"] later[of h2 "ekind (snd (snd x))"] that by auto
  with gone later show ?thesis by blast
qed

theorem unmounted_component_is_silent_witness:
  "run 1 (header_env 10 11) 0 [\<lparr>ekind = Connected, payload = 0\<rparr>]
       (snd (header_setup 10 11 initial)) False =
     Some (\<lparr>socket = Some 0, opened = 1,
             listeners = \<lparr>connected = [10], disconnected = [11], error = [], message = []\<rparr>\<rparr>,
           True, [(0, 10, \<lparr>ekind = Connected, payload = 0\<rparr>)]) \<and>
   run 1 (header_env 10 11) 1
       [\<lparr>ekind = Connected, payload = 1\<rparr>, \<lparr>ekind = Disconnected, payload = 2\<rparr>]
       (onUnmounted (fst (header_setup 10 11 initial))
          \<lparr>socket = Some 0, opened = 1,
            listeners = \<lparr>connected = [10], disconnected = [11], error = [], message = []\<rparr>\<rparr>)
       True =
     Some (\<lparr>socket = Some 0, opened = 1,
             listeners = \<lparr>connected = [], disconnected = [], error = [], message = []\<rparr>\<rparr>,
           True, []) \<and>
   10 \<notin> set (handlers_of Connected (listeners (onUnmounted (fst (header_setup 10 11 initial))
          \<lparr>socket = Some 0, opened = 1,
            listeners = \<lparr>connected = [10], disconnected = [11], error = [], message = []\<rparr>\<rparr>))) \<and>
   11 \<notin> set (handlers_of Disconnected (listeners (onUnmounted (fst (header_setup 10 11 initial))
          \<lparr>socket = Some 0, opened = 1,
            listeners = \<lparr>connected = [10], disconnected = [11], error = [], message = []\<rparr>\<rparr>)))"
proof -
  let ?m2 = "\<lparr>socket = Some 0, opened = 1,
            listeners = \<lparr>connected = [10], disconnected = [11], error = [], message = []\<rparr>\<rparr>"
  let ?c = "fst (header_setup 10 11 initial)"
  have fresh: "\<forall>k. 10 \<notin> set (handlers_of k (listeners initial)) \<and>
      11 \<notin> set (handlers_of k (listeners initial))"
  proof
    fix k show "10 \<notin> set (handlers_of k (listeners initial)) \<and>
      11 \<notin> set (handlers_of k (listeners initial))"
      by (cases k) (simp_all add: initial_def empty_registry_def)
  qed
  have sealed: "\<forall>g L a e k. Subscribe k 10 \<notin> set (fst (header_env 10 11 g L a e)) \<and>
      Subscribe k 11 \<notin> set (fst (header_env 10 11 g L a e))"
    by (simp add: header_env_def)
  have mounted: "header_setup 10 11 initial = (?c, snd (header_setup 10 11 initial))" by simp
  have p1: "run 1 (header_env 10 11) 0 [\<lparr>ekind = Connected, payload = 0\<rparr>]
       (snd (header_setup 10 11 initial)) False =
     Some (?m2, True, [(0, 10, \<lparr>ekind = Connected, payload = 0\<rparr>)])"
    by code_simp
  have p2: "run 1 (header_env 10 11) 1
       [\<lparr>ekind = Connected, payload = 1\<rparr>, \<lparr>ekind = Disconnected, payload = 2\<rparr>]
       (onUnmounted ?c ?m2) True =
     Some (\<lparr>socket = Some 0, opened = 1,
             listeners = \<lparr>connected = [], disconnected = [], error = [], message = []\<rparr>\<rparr>,
           True, [])"
    by code_simp
  from unmounted_component_is_silent[OF fresh sealed mounted p1 p2] p1 p2
  show ?thesis by blast
qed

text \<open>
  Claim C5 says that during the dispatch of one event no handler that unsubscribed
  mid-delivery is invoked more than once. It fails for a handler that unsubscribes and
  subscribes again during the dispatch: \<^verbatim>\<open>forEach\<close> visits the new element, and handler 1 is
  called twice for the one event.
\<close>

theorem resubscribed_handler_invoked_twice:
  "dispatch 3 resubscribing_env \<lparr>ekind = Message, payload = 0\<rparr>
       (snd (onMessage 2 (snd (onMessage 1 initial)))) False =
     Some \<lparr>finished = Completed,
           reg_after = \<lparr>connected = [], disconnected = [], error = [], message = [2, 1]\<rparr>,
           app_after = True,
           invoked = [(1, \<lparr>ekind = Message, payload = 0\<rparr>), (2, \<lparr>ekind = Message, payload = 0\<rparr>),
                      (1, \<lparr>ekind = Message, payload = 0\<rparr>)],
           performed = [Unsubscribe Message 1, Subscribe Message 1]\<rparr>"
  by code_simp

text \<open>
  Claim C5 as amended. In the dispatch of one event, a handler that is not subscribed
  during the dispatch is invoked at most once, whether or not it unsubscribes
  mid-delivery; and when the dispatch completes without a handler raising, a handler that
  was subscribed when the dispatch began and is not unsubscribed during it is invoked.
\<close>

theorem mutation_during_dispatch:
  assumes "dispatch n env ev m a = Some r"
    and "distinct (handlers_of (ekind ev) (listeners m))"
  shows "(Subscribe (ekind ev) h \<notin> set (performed r) \<longrightarrow> count_list (invoked r) (h, ev) \<le> 1) \<and>
     (finished r = Completed \<and> h \<in> set (handlers_of (ekind ev) (listeners m)) \<and>
        Unsubscribe (ekind ev) h \<notin> set (performed r) \<longrightarrow>
      (h, ev) \<in> set (invoked r))"
proof -
  let ?todo = "handlers_of (ekind ev) (listeners m)"
  from assms(1) have fe: "forEach n env ev (listeners m) ?todo a = Some r"
    by (simp add: dispatch_eq)
  from assms(2) have ok: "pending_ok (ekind ev) (listeners m, ?todo)"
    by (simp add: pending_ok_def)
  have "count_list (invoked r) (h, ev) \<le> 1" if "Subscribe (ekind ev) h \<notin> set (performed r)"
    using invoked_at_most_once[OF fe ok that] by (simp split: if_splits)
  moreover have "(h, ev) \<in> set (invoked r)"
    if "finished r = Completed" "h \<in> set ?todo" "Unsubscribe (ekind ev) h \<notin> set (performed r)"
    using invoked_not_skipped[OF fe that] .
  ultimately show ?thesis by blast
qed

theorem mutation_during_dispatch_witness:
  "dispatch 2 once_env \<lparr>ekind = Message, payload = 0\<rparr> (snd (onMessage 2 (snd (onMessage 1 initial)))) () =
     Some \<lparr>finished = Completed,
           reg_after = \<lparr>connected = [], disconnected = [], error = [], message = [2]\<rparr>,
           app_after = (),
           invoked = [(1, \<lparr>ekind = Message, payload = 0\<rparr>), (2, \<lparr>ekind = Message, payload = 0\<rparr>)],
           performed = [Unsubscribe Message 1]\<rparr> \<and>
   count_list [(1::fn, \<lparr>ekind = Message, payload = 0\<rparr>), (2, \<lparr>ekind = Message, payload = 0\<rparr>)]
       (1, \<lparr>ekind = Message, payload = 0\<rparr>) \<le> 1 \<and>
   (2::fn, \<lparr>ekind = Message, payload = 0\<rparr>) \<in>
     set [(1, \<lparr>ekind = Message, payload = 0\<rparr>), (2, \<lparr>ekind = Message, payload = 0\<rparr>)]"
proof -
  let ?ev = "\<lparr>ekind = Message, payload = 0\<rparr>"
  let ?m = "snd (onMessage 2 (snd (onMessage 1 initial)))"
  let ?r = "\<lparr>finished = Completed,
           reg_after = \<lparr>connected = [], disconnected = [], error = [], message = [2]\<rparr>,
           app_after = (),
           invoked = [(1, ?ev), (2, ?ev)],
           performed = [Unsubscribe Message 1]\<rparr>"
  have d: "dispatch 2 once_env ?ev ?m () = Some ?r" by code_simp
  have dist: "distinct (handlers_of (ekind ?ev) (listeners ?m))" by code_simp
  from mutation_during_dispatch[OF d dist, of 1] mutation_during_dispatch[OF d dist, of 2] d
  show ?thesis by simp
qed




text \<open>
  Claim C7. For a handler that is not registered for a kind, subscribing it through the
  subscription function of that kind and calling the returned closure restores the module
  state (the closure returns \<open>True\<close>: the handler was there); and in every run of events
  dispatched afterwards in which no handler subscribes it to that kind, it is not called
  for an event of that kind and is still not registered for it at the end.
\<close>

theorem subscribe_unsubscribe_round_trip:
  assumes "f \<notin> set (handlers_of k (listeners m))"
  shows "snd (fst (subscribe k f m) (snd (subscribe k f m))) = m \<and>
     fst (fst (subscribe k f m) (snd (subscribe k f m))) = True \<and>
     ((\<forall>g L a e. Subscribe k f \<notin> set (fst (env g L a e))) \<and>
      run n env i evs (snd (fst (subscribe k f m) (snd (subscribe k f m)))) a = Some (m', a', tr) \<longrightarrow>
      (\<forall>x\<in>set tr. fst (snd x) = f \<longrightarrow> ekind (snd (snd x)) \<noteq> k) \<and>
      f \<notin> set (handlers_of k (listeners m')))"
proof -
  have restored: "snd (fst (subscribe k f m) (snd (subscribe k f m))) = m"
    using assms
    by (simp add: subscribe_eq delete_listener_def reg_delete_def reg_add_def set_delete_def
        set_add_def)
  have "fst (fst (subscribe k f m) (snd (subscribe k f m))) = True"
    by (simp add: subscribe_eq delete_listener_def reg_add_def set_delete_def set_add_def)
  moreover have "(\<forall>x\<in>set tr. fst (snd x) = f \<longrightarrow> ekind (snd (snd x)) \<noteq> k) \<and>
      f \<notin> set (handlers_of k (listeners m'))"
    if "\<forall>g L a e. Subscribe k f \<notin> set (fst (env g L a e))"
      "run n env i evs (snd (fst (subscribe k f m) (snd (subscribe k f m)))) a = Some (m', a', tr)"
    using run_not_subscribed[OF that(2)[unfolded restored] that(1) assms] by blast
  ultimately show ?thesis using restored by blast
qed

theorem subscribe_unsubscribe_round_trip_witness:
  "snd (fst (subscribe Message 1 (snd (onMessage 2 initial)))
          (snd (subscribe Message 1 (snd (onMessage 2 initial))))) = snd (onMessage 2 initial) \<and>
   run 1 faulty_env 0 [\<lparr>ekind = Message, payload = 0\<rparr>]
       (snd (fst (subscribe Message 1 (snd (onMessage 2 initial)))
          (snd (subscribe Message 1 (snd (onMessage 2 initial)))))) () =
     Some (\<lparr>socket = None, opened = 0,
             listeners = \<lparr>connected = [], disconnected = [], error = [], message = [2]\<rparr>\<rparr>, (),
           [(0, 2, \<lparr>ekind = Message, payload = 0\<rparr>)]) \<and>
   1 \<notin> set (handlers_of Message (listeners \<lparr>socket = None, opened = 0,
             listeners = \<lparr>connected = [], disconnected = [], error = [], message = [2]\<rparr>\<rparr>))"
proof -
  let ?m = "snd (onMessage 2 initial)"
  have new: "1 \<notin> set (handlers_of Message (listeners ?m))" by code_simp
  have quiet: "\<forall>g L a e. Subscribe Message 1 \<notin> set (fst (faulty_env g L a e))"
    by (simp add: faulty_env_def)
  have r: "run 1 faulty_env 0 [\<lparr>ekind = Message, payload = 0\<rparr>]
       (snd (fst (subscribe Message 1 ?m) (snd (subscribe Message 1 ?m)))) () =
     Some (\<lparr>socket = None, opened = 0,
             listeners = \<lparr>connected = [], disconnected = [], error = [], message = [2]\<rparr>\<rparr>, (),
           [(0, 2, \<lparr>ekind = Message, payload = 0\<rparr>)])"
    by code_simp
  from subscribe_unsubscribe_round_trip[OF new, of faulty_env 1 0
      "[\<lparr>ekind = Message, payload = 0\<rparr>]" "()" _ "()" "[(0, 2, \<lparr>ekind = Message, payload = 0\<rparr>)]"]
    quiet r
  show ?thesis by blast
qed

text \<open>
  Claim C8, against the Module Manager modelled from the specification. On a registry in
  which no module is running: when the \<^verbatim>\<open>start\<close> of some registered module fails,
  \<^verbatim>\<open>startAll\<close> reports a failure; and whenever \<^verbatim>\<open>startAll\<close> reports a failure, no module
  is left \<open>Running\<close>. Either nothing was started (an unknown dependency or a cycle), or
  the \<^verbatim>\<open>start\<close> of a module \<open>x\<close> failed: then the calls made are the starts of the modules
  started before \<open>x\<close>, the start of \<open>x\<close>, and the stops of the started modules in the reverse
  of their start order; the started modules end \<open>Stopped\<close> and \<open>x\<close> ends \<open>Failed\<close>.
\<close>

theorem startAll_all_or_nothing:
  assumes "\<forall>d\<in>set ms. mod_state d \<noteq> Running"
  shows "((\<exists>d\<in>set ms. \<not> ok (mod_name d)) \<longrightarrow>
        (\<exists>e ms' calls. startAll ok ms = (Inl e, ms', calls))) \<and>
     (\<forall>e ms' calls. startAll ok ms = (Inl e, ms', calls) \<longrightarrow>
        (\<forall>d\<in>set ms'. mod_state d \<noteq> Running) \<and>
        ((calls = [] \<and> ms' = ms \<and>
            ((\<exists>a b. e = UnknownDependency a b) \<or> (\<exists>c. e = DependencyCycle c))) \<or>
         (\<exists>started x. e = StartError x \<and> \<not> ok x \<and> (\<forall>y\<in>set started. ok y) \<and>
            calls = map Start started @ [Start x] @ map Stop (rev started) \<and>
            (\<forall>d\<in>set ms'. mod_name d \<in> set started \<longrightarrow> mod_state d = Stopped) \<and>
            (\<forall>d\<in>set ms'. mod_name d = x \<longrightarrow> mod_state d = Failed))))"
proof (intro conjI impI allI)
  assume bad: "\<exists>d\<in>set ms. \<not> ok (mod_name d)"
  show "\<exists>e ms' calls. startAll ok ms = (Inl e, ms', calls)"
  proof (cases "unknown_dependency (map mod_name ms) ms")
    case (Some p)
    then show ?thesis by (cases p) (simp add: startAll_def)
  next
    case None
    show ?thesis
    proof (cases "start_order (length ms) ms []")
      case (Inl err)
      with None show ?thesis by (simp add: startAll_def)
    next
      case (Inr order)
      from start_order_names[OF Inr] bad have "\<exists>x\<in>set order. \<not> ok x" by auto
      from start_modules_fails[OF this, of "[]" ms] None Inr show ?thesis
        by (simp add: startAll_def)
    qed
  qed
next
  fix e ms' calls
  assume fails: "startAll ok ms = (Inl e, ms', calls)"
  have both: "(\<forall>d\<in>set ms'. mod_state d \<noteq> Running) \<and>
        ((calls = [] \<and> ms' = ms \<and>
            ((\<exists>a b. e = UnknownDependency a b) \<or> (\<exists>c. e = DependencyCycle c))) \<or>
         (\<exists>started x. e = StartError x \<and> \<not> ok x \<and> (\<forall>y\<in>set started. ok y) \<and>
            calls = map Start started @ [Start x] @ map Stop (rev started) \<and>
            (\<forall>d\<in>set ms'. mod_name d \<in> set started \<longrightarrow> mod_state d = Stopped) \<and>
            (\<forall>d\<in>set ms'. mod_name d = x \<longrightarrow> mod_state d = Failed)))"
  proof (cases "unknown_dependency (map mod_name ms) ms")
    case (Some p)
    obtain a b where p: "p = (a, b)" by (cases p) auto
    with Some fails have "calls = []" "ms' = ms" "e = UnknownDependency a b"
      by (auto simp: startAll_def)
    with assms show ?thesis by blast
  next
    case None
    show ?thesis
    proof (cases "start_order (length ms) ms []")
      case (Inl err)
      with None fails have "calls = []" "ms' = ms" "e = err" by (auto simp: startAll_def)
      moreover from start_order_error[OF Inl] obtain c where "err = DependencyCycle c" by blast
      ultimately show ?thesis using assms by blast
    next
      case (Inr order)
      with None fails have sm: "start_modules ok order [] ms = (Inl e, ms', calls)"
        by (simp add: startAll_def)
      from assms have "\<forall>d\<in>set ms. mod_state d = Running \<longrightarrow> mod_name d \<in> set []" by simp
      from start_modules_failure[OF sm this] obtain pre x where
        p: "e = StartError x" "\<not> ok x" "\<forall>y\<in>set pre. ok y"
          "calls = map Start pre @ [Start x] @ map Stop (rev pre @ [])"
        and q: "\<forall>d\<in>set ms'. mod_state d \<noteq> Running \<and>
          (mod_name d \<in> set pre \<union> set [] \<longrightarrow> mod_state d = Stopped) \<and>
          (mod_name d = x \<and> x \<notin> set [] \<longrightarrow> mod_state d = Failed)"
        by blast
      from q have q1: "\<forall>d\<in>set ms'. mod_state d \<noteq> Running"
        and q2: "\<forall>d\<in>set ms'. mod_name d \<in> set pre \<longrightarrow> mod_state d = Stopped"
        and q3: "\<forall>d\<in>set ms'. mod_name d = x \<longrightarrow> mod_state d = Failed" by simp_all
      from p(4) have c: "calls = map Start pre @ [Start x] @ map Stop (rev pre)" by simp
      from p(1,2,3) c q1 q2 q3 show ?thesis by blast
    qed
  qed
  from both show "\<forall>d\<in>set ms'. mod_state d \<noteq> Running" by (rule conjunct1)
  from both show "(calls = [] \<and> ms' = ms \<and>
            ((\<exists>a b. e = UnknownDependency a b) \<or> (\<exists>c. e = DependencyCycle c))) \<or>
         (\<exists>started x. e = StartError x \<and> \<not> ok x \<and> (\<forall>y\<in>set started. ok y) \<and>
            calls = map Start started @ [Start x] @ map Stop (rev started) \<and>
            (\<forall>d\<in>set ms'. mod_name d \<in> set started \<longrightarrow> mod_state d = Stopped) \<and>
            (\<forall>d\<in>set ms'. mod_name d = x \<longrightarrow> mod_state d = Failed))" by (rule conjunct2)
qed

theorem startAll_all_or_nothing_witness:
  "startAll tools_fails three_modules =
     (Inl (StartError ''tools''),
      [\<lparr>mod_name = ''tools'', mod_deps = [''brain''], mod_state = Failed\<rparr>,
       \<lparr>mod_name = ''memory'', mod_deps = [], mod_state = Stopped\<rparr>,
       \<lparr>mod_name = ''brain'', mod_deps = [''memory''], mod_state = Stopped\<rparr>],
      [Start ''memory'', Start ''brain'', Start ''tools'', Stop ''brain'', Stop ''memory'']) \<and>
   list_all (\<lambda>d. mod_state d \<noteq> Running)
     [\<lparr>mod_name = ''tools'', mod_deps = [''brain''], mod_state = Failed\<rparr>,
      \<lparr>mod_name = ''memory'', mod_deps = [], mod_state = Stopped\<rparr>,
      \<lparr>mod_name = ''brain'', mod_deps = [''memory''], mod_state = Stopped\<rparr>]"
proof -
  let ?ms' = "[\<lparr>mod_name = ''tools'', mod_deps = [''brain''], mod_state = Failed\<rparr>,
       \<lparr>mod_name = ''memory'', mod_deps = [], mod_state = Stopped\<rparr>,
       \<lparr>mod_name = ''brain'', mod_deps = [''memory''], mod_state = Stopped\<rparr>]"
  have none: "\<forall>d\<in>set three_modules. mod_state d \<noteq> Running"
    by (simp add: three_modules_def)
  have bad: "\<exists>d\<in>set three_modules. \<not> tools_fails (mod_name d)"
    by (simp add: three_modules_def tools_fails_def)
  have s: "startAll tools_fails three_modules =
     (Inl (StartError ''tools''), ?ms',
      [Start ''memory'', Start ''brain'', Start ''tools'', Stop ''brain'', Stop ''memory''])"
    by code_simp
  note all = startAll_all_or_nothing[OF none, of tools_fails]
  from all have "\<forall>e ms' calls. startAll tools_fails three_modules = (Inl e, ms', calls) \<longrightarrow>
      (\<forall>d\<in>set ms'. mod_state d \<noteq> Running) \<and>
        ((calls = [] \<and> ms' = three_modules \<and>
            ((\<exists>a b. e = UnknownDependency a b) \<or> (\<exists>c. e = DependencyCycle c))) \<or>
         (\<exists>started x. e = StartError x \<and> \<not> tools_fails x \<and> (\<forall>y\<in>set started. tools_fails y) \<and>
            calls = map Start started @ [Start x] @ map Stop (rev started) \<and>
            (\<forall>d\<in>set ms'. mod_name d \<in> set started \<longrightarrow> mod_state d = Stopped) \<and>
            (\<forall>d\<in>set ms'. mod_name d = x \<longrightarrow> mod_state d = Failed)))"
    by (rule conjunct2)
  from this[rule_format, OF s] have "\<forall>d\<in>set ?ms'. mod_state d \<noteq> Running" by (rule conjunct1)
  then have "list_all (\<lambda>d. mod_state d \<noteq> Running) ?ms'" by (simp only: list_all_iff)
  with s show ?thesis by (intro conjI)
qed




text \<open>
  Claim C10. Subscribing a handler a second time to the same kind leaves the module state
  as the first subscription left it, and the second closure returned is the first one.
  Calling it once removes the handler from the set. With a registry free of repetitions
  the set holds the handler once; in a dispatch of an event of that kind during which the
  handler is not subscribed anew it is invoked at most once, and exactly once when the
  dispatch completes and the handler is not unsubscribed during it.
\<close>

theorem double_registration:
  "snd (subscribe k f (snd (subscribe k f m))) = snd (subscribe k f m) \<and>
   fst (subscribe k f (snd (subscribe k f m))) = fst (subscribe k f m) \<and>
   f \<notin> set (handlers_of k (listeners (snd (fst (subscribe k f m)
            (snd (subscribe k f (snd (subscribe k f m)))))))) \<and>
   (distinct (handlers_of k (listeners m)) \<longrightarrow>
      count_list (handlers_of k (listeners (snd (subscribe k f (snd (subscribe k f m)))))) f = 1) \<and>
   (distinct (handlers_of k (listeners m)) \<and> ekind ev = k \<and>
    dispatch n env ev (snd (subscribe k f (snd (subscribe k f m)))) a = Some r \<and>
    Subscribe k f \<notin> set (performed r) \<longrightarrow>
      count_list (invoked r) (f, ev) \<le> 1 \<and>
      (finished r = Completed \<and> Unsubscribe k f \<notin> set (performed r) \<longrightarrow>
         count_list (invoked r) (f, ev) = 1))"
proof -
  let ?m1 = "snd (subscribe k f m)"
  let ?m2 = "snd (subscribe k f ?m1)"
  have same: "?m2 = ?m1"
    by (simp add: subscribe_eq reg_add_def set_add_def)
  have closure: "fst (subscribe k f ?m1) = fst (subscribe k f m)"
    by (simp add: subscribe_eq)
  have removed: "f \<notin> set (handlers_of k (listeners (snd (fst (subscribe k f m) ?m2))))"
    by (simp add: subscribe_eq delete_listener_def handlers_of_reg_delete)
  have hs: "handlers_of k (listeners ?m2) = set_add f (handlers_of k (listeners m))"
    unfolding same by (simp add: subscribe_eq handlers_of_reg_add)
  have one: "count_list (handlers_of k (listeners ?m2)) f = 1"
    if "distinct (handlers_of k (listeners m))"
    unfolding hs using that
    by (intro count_list_distinct distinct_set_add) (simp_all add: set_add_def)
  have once: "count_list (invoked r) (f, ev) \<le> 1 \<and>
      (finished r = Completed \<and> Unsubscribe k f \<notin> set (performed r) \<longrightarrow>
         count_list (invoked r) (f, ev) = 1)"
    if d: "distinct (handlers_of k (listeners m))" and k: "ekind ev = k"
      and r: "dispatch n env ev ?m2 a = Some r" and ns: "Subscribe k f \<notin> set (performed r)"
  proof -
    from r k have fe: "forEach n env ev (listeners ?m2) (handlers_of k (listeners ?m2)) a = Some r"
      by (simp add: dispatch_eq)
    have dist: "distinct (handlers_of k (listeners ?m2))"
      unfolding hs using d by (rule distinct_set_add)
    then have ok: "pending_ok (ekind ev) (listeners ?m2, handlers_of k (listeners ?m2))"
      using k by (simp add: pending_ok_def)
    have le: "count_list (invoked r) (f, ev) \<le> 1"
      using invoked_at_most_once[OF fe ok, where h = f] ns k by (simp split: if_splits)
    have mem: "f \<in> set (handlers_of k (listeners ?m2))"
      unfolding hs by (simp add: set_add_def)
    have "count_list (invoked r) (f, ev) = 1"
      if "finished r = Completed" "Unsubscribe k f \<notin> set (performed r)"
    proof -
      from invoked_not_skipped[OF fe that(1) mem] that(2) k
      have "(f, ev) \<in> set (invoked r)" by simp
      then have "count_list (invoked r) (f, ev) \<noteq> 0" by (simp add: count_list_0_iff)
      with le show ?thesis by simp
    qed
    with le show ?thesis by blast
  qed
  from same closure removed one once show ?thesis by blast
qed

theorem double_registration_witness:
  "snd (subscribe Message 1 (snd (subscribe Message 1 (snd (onMessage 2 initial))))) =
     snd (subscribe Message 1 (snd (onMessage 2 initial))) \<and>
   count_list (handlers_of Message (listeners
       (snd (subscribe Message 1 (snd (subscribe Message 1 (snd (onMessage 2 initial)))))))) 1 = 1 \<and>
   dispatch 2 faulty_env \<lparr>ekind = Message, payload = 0\<rparr>
       (snd (subscribe Message 1 (snd (subscribe Message 1 (snd (onMessage 2 initial)))))) () =
     Some \<lparr>finished = Completed,
           reg_after = \<lparr>connected = [], disconnected = [], error = [], message = [2, 1]\<rparr>,
           app_after = (),
           invoked = [(2, \<lparr>ekind = Message, payload = 0\<rparr>), (1, \<lparr>ekind = Message, payload = 0\<rparr>)],
           performed = []\<rparr> \<and>
   count_list [(2::fn, \<lparr>ekind = Message, payload = 0\<rparr>), (1, \<lparr>ekind = Message, payload = 0\<rparr>)]
       (1, \<lparr>ekind = Message, payload = 0\<rparr>) = 1"
proof -
  let ?m = "snd (onMessage 2 initial)"
  let ?ev = "\<lparr>ekind = Message, payload = 0\<rparr>"
  let ?r = "\<lparr>finished = Completed,
           reg_after = \<lparr>connected = [], disconnected = [], error = [], message = [2, 1]\<rparr>,
           app_after = (),
           invoked = [(2, ?ev), (1, ?ev)],
           performed = []\<rparr>"
  have dist: "distinct (handlers_of Message (listeners ?m))" by code_simp
  have d: "dispatch 2 faulty_env ?ev
       (snd (subscribe Message 1 (snd (subscribe Message 1 ?m)))) () = Some ?r"
    by code_simp
  note reg = double_registration[of Message 1 ?m ?ev 2 faulty_env "()" ?r]
  from reg have same: "snd (subscribe Message 1 (snd (subscribe Message 1 ?m))) =
      snd (subscribe Message 1 ?m)" by (rule conjunct1)
  from reg have "distinct (handlers_of Message (listeners ?m)) \<longrightarrow>
      count_list (handlers_of Message (listeners
        (snd (subscribe Message 1 (snd (subscribe Message 1 ?m)))))) 1 = 1"
    by (elim conjE)
  with dist have one: "count_list (handlers_of Message (listeners
      (snd (subscribe Message 1 (snd (subscribe Message 1 ?m)))))) 1 = 1" by (rule rev_mp)
  have once: "count_list [(2::fn, ?ev), (1, ?ev)] (1, ?ev) = 1" by simp
  from same one d once show ?thesis by (intro conjI)
qed

end
